theory Spec2Isabelle
  imports Main "HOL-Library.Sublist" "HOL-Library.Multiset"
begin

section \<open>Strings\<close>

text \<open>
  A JavaScript string is a sequence of UTF-16 code units. The outline texts of this
  editor are Japanese as often as not, and \<^verbatim>\<open>String.prototype.trim\<close> strips
  the ideographic space U+3000 like any other white space, so a string is modelled as
  the list of its code units, each a natural number.
\<close>

type_synonym jsstring = "nat list"

definition TAB :: nat where
  "TAB = 9"

definition NEWLINE :: nat where
  "NEWLINE = 10"

text \<open>
  The characters \<^verbatim>\<open>trim\<close> removes: ECMAScript's WhiteSpace (TAB, VT, FF, SP,
  NBSP, ZWNBSP and the category Zs) and LineTerminator (LF, CR, LS, PS).
\<close>

definition is_white_space :: "nat \<Rightarrow> bool" where
  "is_white_space c \<longleftrightarrow>
     c = 9 \<or> c = 10 \<or> c = 11 \<or> c = 12 \<or> c = 13 \<or> c = 32 \<or> c = 160 \<or> c = 5760 \<or>
     (8192 \<le> c \<and> c \<le> 8202) \<or> c = 8232 \<or> c = 8233 \<or> c = 8239 \<or> c = 8287 \<or>
     c = 12288 \<or> c = 65279"

definition trim :: "jsstring \<Rightarrow> jsstring" where
  "trim s = rev (dropWhile is_white_space (rev (dropWhile is_white_space s)))"

text \<open>\<^verbatim>\<open>text.split('\n')\<close>: the empty string splits into one empty line.\<close>

fun split_lines :: "jsstring \<Rightarrow> jsstring list" where
  "split_lines [] = [[]]"
| "split_lines (c # cs) =
     (if c = NEWLINE then [] # split_lines cs
      else (case split_lines cs of
              l # ls \<Rightarrow> (c # l) # ls
            | [] \<Rightarrow> [[c]]))"

text \<open>\<^verbatim>\<open>lines.join('\n')\<close>: no line gives the empty string.\<close>

fun join_lines :: "jsstring list \<Rightarrow> jsstring" where
  "join_lines [] = []"
| "join_lines [l] = l"
| "join_lines (l # ls) = l @ NEWLINE # join_lines ls"

text \<open>Decimal digits of a number, as the template literal \<^verbatim>\<open>${n}\<close> prints them.\<close>

fun show_nat :: "nat \<Rightarrow> jsstring" where
  "show_nat n = (if n < 10 then [48 + n] else show_nat (n div 10) @ [48 + n mod 10])"

declare show_nat.simps [simp del]

section \<open>The tree\<close>

text \<open>
  \<^verbatim>\<open>interface TreeNode { id; text; depth; children; isExpanded; parent? }\<close>
  (src/types/index.ts). The back reference \<^verbatim>\<open>parent\<close> points at an object; the
  only field the editor ever reads through it is the parent's \<^verbatim>\<open>id\<close>, which no
  operation changes, so the model keeps the parent's id (\<open>None\<close> for
  \<^verbatim>\<open>undefined\<close>).
\<close>

datatype tree_node =
  TreeNode
    (node_id: jsstring)
    (node_text: jsstring)
    (depth: nat)
    (children: "tree_node list")
    (isExpanded: bool)
    (parent: "jsstring option")

type_synonym forest = "tree_node list"

text \<open>Every node of a forest, parents before children, left to right.\<close>

fun all_nodes :: "forest \<Rightarrow> tree_node list" where
  "all_nodes [] = []"
| "all_nodes (TreeNode i t d cs e p # ns) = TreeNode i t d cs e p # all_nodes cs @ all_nodes ns"

definition ids :: "forest \<Rightarrow> jsstring list" where
  "ids ns = map node_id (all_nodes ns)"

section \<open>Parser and serialiser (treeParser)\<close>

text \<open>\<^verbatim>\<open>getIndentDepth\<close>: the number of tab characters a line starts with.\<close>

fun getIndentDepth :: "jsstring \<Rightarrow> nat" where
  "getIndentDepth [] = 0"
| "getIndentDepth (c # cs) = (if c = TAB then Suc (getIndentDepth cs) else 0)"

text \<open>\<^verbatim>\<open>`node-${Date.now()}-${index}`\<close>, with the clock's reading as a parameter.\<close>

definition parser_id :: "nat \<Rightarrow> nat \<Rightarrow> jsstring" where
  "parser_id now index = [110, 111, 100, 101, 45] @ show_nat now @ [45] @ show_nat index"

text \<open>
  The parser builds the tree by mutation: it keeps references to the open ancestors on
  a stack and pushes each new node onto the \<^verbatim>\<open>children\<close> array of the node on
  top, or onto the root array \<^verbatim>\<open>nodes\<close>. An array is addressed here by its place
  in the forest: \<open>[]\<close> is the root array, and \<open>r @ [i]\<close> is the array
  \<^verbatim>\<open>children\<close> of element \<open>i\<close> of the array \<open>r\<close>. Arrays only grow at the
  end, so a place stays valid. \<open>children_push ns r c\<close> is \<^verbatim>\<open>push(c)\<close> on the
  array at \<open>r\<close>, and \<open>children_at ns r\<close> reads that array.
\<close>

type_synonym node_ref = "nat list"

fun children_push :: "forest \<Rightarrow> node_ref \<Rightarrow> tree_node \<Rightarrow> forest" where
  "children_push ns [] c = ns @ [c]"
| "children_push ns (i # r) c =
     (if i < length ns
      then ns[i := (case ns ! i of
                      TreeNode a t d cs e p \<Rightarrow> TreeNode a t d (children_push cs r c) e p)]
      else ns)"

fun children_at :: "forest \<Rightarrow> node_ref \<Rightarrow> forest" where
  "children_at ns [] = ns"
| "children_at ns (i # r) = (if i < length ns then children_at (children (ns ! i)) r else [])"

text \<open>
  A reference on the stack: where the node's \<^verbatim>\<open>children\<close> array is, and the two
  fields the parser reads through the reference, which never change once the node is
  made.
\<close>

record open_node =
  ref_children :: node_ref
  ref_id :: jsstring
  ref_depth :: nat

record parser_state =
  parsed :: forest
  stack :: "open_node list"

text \<open>
  \<^verbatim>\<open>while (stack.length > 0 && stack[stack.length - 1].depth >= depth) stack.pop()\<close>.
  The top of the stack is the head of the list.
\<close>

fun pop_deeper :: "nat \<Rightarrow> open_node list \<Rightarrow> open_node list" where
  "pop_deeper d [] = []"
| "pop_deeper d (r # rest) =
     (if ref_depth r \<ge> d then pop_deeper d rest else r # rest)"

text \<open>The body of \<^verbatim>\<open>lines.forEach((line, index) => ...)\<close>.\<close>

definition parse_line :: "(nat \<Rightarrow> nat) \<Rightarrow> nat \<times> jsstring \<Rightarrow> parser_state \<Rightarrow> parser_state" where
  "parse_line now il st =
     (let index = fst il; line = snd il;
          d = getIndentDepth line;
          t = trim (dropWhile (\<lambda>c. c = TAB) line);
          i = parser_id (now index) index;
          stack' = pop_deeper d (stack st)
      in case stack' of
           [] \<Rightarrow>
             \<lparr>parsed = children_push (parsed st) [] (TreeNode i t d [] True None),
              stack = [\<lparr>ref_children = [length (parsed st)], ref_id = i, ref_depth = d\<rparr>]\<rparr>
         | par # _ \<Rightarrow>
             \<lparr>parsed = children_push (parsed st) (ref_children par)
                         (TreeNode i t d [] True (Some (ref_id par))),
              stack = \<lparr>ref_children =
                         ref_children par @ [length (children_at (parsed st) (ref_children par))],
                       ref_id = i, ref_depth = d\<rparr> # stack'\<rparr>)"

text \<open>
  \<^verbatim>\<open>parseTextToTree\<close>. \<open>now k\<close> is what \<^verbatim>\<open>Date.now()\<close> returns while line
  \<open>k\<close> is read.
\<close>

definition retained_lines :: "jsstring \<Rightarrow> jsstring list" where
  "retained_lines txt = filter (\<lambda>line. trim line \<noteq> []) (split_lines txt)"

definition parseTextToTree :: "(nat \<Rightarrow> nat) \<Rightarrow> jsstring \<Rightarrow> forest" where
  "parseTextToTree now txt =
     parsed (fold (parse_line now) (enumerate 0 (retained_lines txt)) \<lparr>parsed = [], stack = []\<rparr>)"

text \<open>\<^verbatim>\<open>serializeTreeToText\<close>: the lines its \<^verbatim>\<open>traverse\<close> collects, joined.\<close>

fun serialize_traverse :: "tree_node \<Rightarrow> jsstring list" where
  "serialize_traverse (TreeNode i t d cs e p) =
     (replicate d TAB @ t) # concat (map serialize_traverse cs)"

definition serializeTreeToText :: "forest \<Rightarrow> jsstring" where
  "serializeTreeToText ns = join_lines (concat (map serialize_traverse ns))"

text \<open>\<^verbatim>\<open>flattenTree\<close>: children are visited only below an expanded node.\<close>

fun flatten_traverse :: "tree_node \<Rightarrow> tree_node list" where
  "flatten_traverse (TreeNode i t d cs e p) =
     TreeNode i t d cs e p # (if e then concat (map flatten_traverse cs) else [])"

definition flattenTree :: "forest \<Rightarrow> tree_node list" where
  "flattenTree ns = concat (map flatten_traverse ns)"

text \<open>\<^verbatim>\<open>toggleNode\<close> of the component TreeEditor, with its \<^verbatim>\<open>toggleInTree\<close>.\<close>

fun toggle_node :: "jsstring \<Rightarrow> tree_node \<Rightarrow> tree_node" where
  "toggle_node k (TreeNode i t d cs e p) =
     (if i = k then TreeNode i t d cs (\<not> e) p
      else if length cs > 0 then TreeNode i t d (map (toggle_node k) cs) e p
      else TreeNode i t d cs e p)"

definition toggleInTree :: "jsstring \<Rightarrow> forest \<Rightarrow> forest" where
  "toggleInTree k ns = map (toggle_node k) ns"

section \<open>History (BrowserView)\<close>

text \<open>
  The part of the state of the component \<^verbatim>\<open>BrowserView\<close> that its editing
  handlers read and write. \<open>nodes\<close> is the property the parent component owns:
  \<^verbatim>\<open>onUpdateNodes(x)\<close> replaces it by \<open>x\<close>. Focus and scrolling are left out.
\<close>

datatype drop_position = Before | After | Child

record browser_view =
  nodes :: forest
  history :: "forest list"
  historyIndex :: nat
  expandedIds :: "jsstring set"
  editingId :: "jsstring option"
  draggingId :: "jsstring option"
  dropTarget :: "(jsstring \<times> drop_position) option"

text \<open>
  The state at mount: \<^verbatim>\<open>useState([nodes])\<close>, \<^verbatim>\<open>useState(0)\<close>, and the ids
  of the nodes whose \<^verbatim>\<open>isExpanded\<close> is set.
\<close>

definition mount :: "forest \<Rightarrow> browser_view" where
  "mount ns =
     \<lparr>nodes = ns, history = [ns], historyIndex = 0,
      expandedIds = set (map node_id (filter isExpanded (all_nodes ns))),
      editingId = None, draggingId = None, dropTarget = None\<rparr>"

text \<open>
  \<^verbatim>\<open>addToHistory\<close>: cut the history after the cursor, append, and keep at most 50
  entries. When the oldest entry is shifted out the cursor keeps its value
  (\<^verbatim>\<open>setHistoryIndex((idx) => idx)\<close>).
\<close>

definition addToHistory :: "forest \<Rightarrow> browser_view \<Rightarrow> browser_view" where
  "addToHistory newNodes st =
     (let newHistory = take (historyIndex st + 1) (history st) @ [newNodes] in
      if length newHistory > 50
      then st\<lparr>history := tl newHistory\<rparr>
      else st\<lparr>history := newHistory, historyIndex := length newHistory - 1\<rparr>)"

definition onUpdateNodes :: "forest \<Rightarrow> browser_view \<Rightarrow> browser_view" where
  "onUpdateNodes newNodes st = st\<lparr>nodes := newNodes\<rparr>"

text \<open>
  \<^verbatim>\<open>handleUndo\<close>. Reading \<^verbatim>\<open>history[newIndex]\<close> beyond the end of the array
  gives \<^verbatim>\<open>undefined\<close>, which the parent cannot render: that outcome is \<open>None\<close>.
\<close>

definition handleUndo :: "browser_view \<Rightarrow> browser_view option" where
  "handleUndo st =
     (if historyIndex st > 0
      then (let newIndex = historyIndex st - 1 in
            if newIndex < length (history st)
            then Some (onUpdateNodes (history st ! newIndex) (st\<lparr>historyIndex := newIndex\<rparr>))
            else None)
      else Some st)"

text \<open>
  \<^verbatim>\<open>handleRedo\<close>. The guard \<^verbatim>\<open>historyIndex < history.length - 1\<close> is written
  with the addition on the left, since \<open>nat\<close> subtraction stops at 0; under it the
  read is always inside the array.
\<close>

definition handleRedo :: "browser_view \<Rightarrow> browser_view option" where
  "handleRedo st =
     (if historyIndex st + 1 < length (history st)
      then (let newIndex = historyIndex st + 1 in
            Some (onUpdateNodes (history st ! newIndex) (st\<lparr>historyIndex := newIndex\<rparr>)))
      else Some st)"


text \<open>
  Every editing handler that changes the tree ends with
  \<^verbatim>\<open>addToHistory(x); onUpdateNodes(x)\<close>; this is a push of \<open>x\<close>.
\<close>

definition push :: "forest \<Rightarrow> browser_view \<Rightarrow> browser_view" where
  "push x st = onUpdateNodes x (addToHistory x st)"

datatype history_op = Push forest | Undo | Redo

fun history_step :: "history_op \<Rightarrow> browser_view \<Rightarrow> browser_view option" where
  "history_step (Push x) st = Some (push x st)"
| "history_step Undo st = handleUndo st"
| "history_step Redo st = handleRedo st"

fun run :: "history_op list \<Rightarrow> browser_view \<Rightarrow> browser_view option" where
  "run [] st = Some st"
| "run (op # ops) st =
     (case history_step op st of
        None \<Rightarrow> None
      | Some st' \<Rightarrow> run ops st')"

text \<open>Undo, repeated.\<close>

fun undo_times :: "nat \<Rightarrow> browser_view \<Rightarrow> browser_view option" where
  "undo_times 0 st = Some st"
| "undo_times (Suc k) st =
     (case handleUndo st of
        None \<Rightarrow> None
      | Some st' \<Rightarrow> undo_times k st')"

text \<open>
  What holds of the history in every state the handlers reach: it is not empty, it has
  at most 50 entries, the cursor is inside it, and the tree on display is the entry at
  the cursor.
\<close>

definition history_ok :: "browser_view \<Rightarrow> bool" where
  "history_ok st \<longleftrightarrow>
     history st \<noteq> [] \<and> length (history st) \<le> 50 \<and>
     historyIndex st < length (history st) \<and>
     nodes st = history st ! historyIndex st"

section \<open>Editing handlers (BrowserView)\<close>

text \<open>\<^verbatim>\<open>Array.prototype.findIndex\<close>: the first index whose element passes, or -1.\<close>

fun findIndex :: "('a \<Rightarrow> bool) \<Rightarrow> 'a list \<Rightarrow> int" where
  "findIndex P [] = - 1"
| "findIndex P (x # xs) =
     (if P x then 0
      else (let k = findIndex P xs in if k = - 1 then - 1 else k + 1))"

text \<open>
  \<^verbatim>\<open>xs.splice(start, 0, x)\<close> for \<open>start \<ge> 0\<close>: insert \<open>x\<close> before index
  \<open>start\<close>, at the end when \<open>start\<close> is beyond it.
\<close>

definition splice_insert :: "nat \<Rightarrow> 'a \<Rightarrow> 'a list \<Rightarrow> 'a list" where
  "splice_insert start x xs = take start xs @ x # drop start xs"

text \<open>
  \<^verbatim>\<open>nodeMap\<close>: every node under its id; \<^verbatim>\<open>map.set\<close> of an id already there
  replaces the entry.
\<close>

fun build :: "tree_node \<Rightarrow> (jsstring \<rightharpoonup> tree_node) \<Rightarrow> (jsstring \<rightharpoonup> tree_node)" where
  "build (TreeNode i t d cs e p) m = fold build cs (m(i \<mapsto> TreeNode i t d cs e p))"

definition nodeMap :: "forest \<Rightarrow> (jsstring \<rightharpoonup> tree_node)" where
  "nodeMap ns = fold build ns Map.empty"

text \<open>\<^verbatim>\<open>`node-${Date.now()}`\<close>, the id the editing handlers give a new node.\<close>

definition fresh_id :: "nat \<Rightarrow> jsstring" where
  "fresh_id now = [110, 111, 100, 101, 45] @ show_nat now"

text \<open>
  \<^verbatim>\<open>removeNode\<close>, which \<^verbatim>\<open>handleDelete\<close>, \<^verbatim>\<open>handleUpdateText\<close> and
  \<^verbatim>\<open>handleDrop\<close> each define in the same words.
\<close>

fun removeNode_in :: "jsstring \<Rightarrow> tree_node \<Rightarrow> tree_node" where
  "removeNode_in k (TreeNode i t d cs e p) =
     TreeNode i t d (map (removeNode_in k) (filter (\<lambda>node. node_id node \<noteq> k) cs)) e p"

definition removeNode :: "forest \<Rightarrow> jsstring \<Rightarrow> forest" where
  "removeNode nodeList k = map (removeNode_in k) (filter (\<lambda>node. node_id node \<noteq> k) nodeList)"

text \<open>\<^verbatim>\<open>handleDelete\<close>.\<close>

definition handleDelete :: "jsstring \<Rightarrow> browser_view \<Rightarrow> browser_view" where
  "handleDelete k st =
     (let updatedNodes = removeNode (nodes st) k in
      onUpdateNodes updatedNodes (addToHistory updatedNodes st))"

text \<open>\<^verbatim>\<open>handleAddSibling\<close>, with its \<^verbatim>\<open>updateNode\<close>.\<close>

fun addSibling_updateNode :: "jsstring \<Rightarrow> jsstring \<Rightarrow> tree_node \<Rightarrow> tree_node \<Rightarrow> tree_node" where
  "addSibling_updateNode parentId k newNode (TreeNode i t d cs e p) =
     (if i = parentId
      then TreeNode i t d
             (splice_insert (nat (findIndex (\<lambda>n. node_id n = k) cs + 1)) newNode cs) e p
      else TreeNode i t d (map (addSibling_updateNode parentId k newNode) cs) e p)"

definition handleAddSibling :: "nat \<Rightarrow> jsstring \<Rightarrow> browser_view \<Rightarrow> browser_view" where
  "handleAddSibling now k st =
     (case nodeMap (nodes st) k of
        None \<Rightarrow> st
      | Some targetNode \<Rightarrow>
          (let newNode = TreeNode (fresh_id now) [] (depth targetNode) [] True (parent targetNode);
               updatedNodes =
                 (case parent targetNode of
                    Some parentId \<Rightarrow> map (addSibling_updateNode parentId k newNode) (nodes st)
                  | None \<Rightarrow>
                      splice_insert (nat (findIndex (\<lambda>n. node_id n = k) (nodes st) + 1))
                        newNode (nodes st))
           in (onUpdateNodes updatedNodes (addToHistory updatedNodes st))
                \<lparr>editingId := Some (node_id newNode)\<rparr>))"

text \<open>
  \<^verbatim>\<open>handleUpdateText\<close>, with its \<^verbatim>\<open>updateNode\<close>. The focus it moves after 50
  ms is not part of the state here.
\<close>

fun updateText_updateNode :: "jsstring \<Rightarrow> jsstring \<Rightarrow> tree_node \<Rightarrow> tree_node" where
  "updateText_updateNode k newText (TreeNode i t d cs e p) =
     (if i = k then TreeNode i newText d cs e p
      else TreeNode i t d (map (updateText_updateNode k newText) cs) e p)"

definition handleUpdateText :: "jsstring \<Rightarrow> jsstring \<Rightarrow> browser_view \<Rightarrow> browser_view" where
  "handleUpdateText k newText st =
     (if trim newText = []
      then (let updatedNodes = removeNode (nodes st) k in
            (onUpdateNodes updatedNodes (addToHistory updatedNodes st))\<lparr>editingId := None\<rparr>)
      else (let updatedNodes = map (updateText_updateNode k newText) (nodes st) in
            (onUpdateNodes updatedNodes (addToHistory updatedNodes st))\<lparr>editingId := None\<rparr>))"

text \<open>
  \<^verbatim>\<open>handleAddChild\<close>, with its \<^verbatim>\<open>updateNode\<close>. Putting the new child into
  edit mode happens 50 ms later and is left out.
\<close>

fun addChild_updateNode :: "nat \<Rightarrow> jsstring \<Rightarrow> tree_node \<Rightarrow> tree_node" where
  "addChild_updateNode now k (TreeNode i t d cs e p) =
     (if i = k
      then TreeNode i t d (cs @ [TreeNode (fresh_id now) [] (d + 1) [] True (Some i)]) True p
      else TreeNode i t d (map (addChild_updateNode now k) cs) e p)"

definition handleAddChild :: "nat \<Rightarrow> jsstring \<Rightarrow> browser_view \<Rightarrow> browser_view" where
  "handleAddChild now k st =
     (let updatedNodes = map (addChild_updateNode now k) (nodes st) in
      (onUpdateNodes updatedNodes (addToHistory updatedNodes st))
        \<lparr>expandedIds := insert k (expandedIds st)\<rparr>)"

section \<open>Drag and drop (BrowserView)\<close>

text \<open>\<^verbatim>\<open>handleDragStart\<close>.\<close>

definition handleDragStart :: "jsstring \<Rightarrow> browser_view \<Rightarrow> browser_view" where
  "handleDragStart nodeId st = st\<lparr>draggingId := Some nodeId\<rparr>"

text \<open>The \<^verbatim>\<open>isDescendant\<close> of \<^verbatim>\<open>handleDragOver\<close>.\<close>

fun isDescendant :: "tree_node \<Rightarrow> jsstring \<Rightarrow> bool" where
  "isDescendant (TreeNode i t d cs e p) childId \<longleftrightarrow>
     i = childId \<or> (\<exists>child \<in> set cs. isDescendant child childId)"

text \<open>
  \<^verbatim>\<open>handleDragOver\<close>. The position comes from the pointer's height inside the row
  and is a parameter here. \<^verbatim>\<open>!draggingId\<close> holds of \<^verbatim>\<open>null\<close> and of the
  empty string.
\<close>

definition falsy :: "jsstring option \<Rightarrow> bool" where
  "falsy s \<longleftrightarrow> s = None \<or> s = Some []"

definition handleDragOver :: "jsstring \<Rightarrow> drop_position \<Rightarrow> browser_view \<Rightarrow> browser_view" where
  "handleDragOver targetNodeId position st =
     (if falsy (draggingId st) \<or> draggingId st = Some targetNodeId
      then st\<lparr>dropTarget := None\<rparr>
      else (case (nodeMap (nodes st) (the (draggingId st)), nodeMap (nodes st) targetNodeId) of
              (Some dragNode, Some targetNode) \<Rightarrow>
                if isDescendant dragNode targetNodeId
                then st\<lparr>dropTarget := None\<rparr>
                else st\<lparr>dropTarget := Some (targetNodeId, position)\<rparr>
            | _ \<Rightarrow> st))"

text \<open>\<^verbatim>\<open>updateNodeDepth\<close> and \<^verbatim>\<open>insertNode\<close> of \<^verbatim>\<open>handleDrop\<close>.\<close>

fun updateNodeDepth :: "tree_node \<Rightarrow> nat \<Rightarrow> jsstring option \<Rightarrow> tree_node" where
  "updateNodeDepth (TreeNode i t d cs e p) newDepth newParent =
     TreeNode i t newDepth
       (if length cs > 0
        then map (\<lambda>child. updateNodeDepth child (newDepth + 1) (Some i)) cs
        else cs)
       e newParent"

fun insertNode_in :: "jsstring \<Rightarrow> tree_node \<Rightarrow> drop_position \<Rightarrow> tree_node \<Rightarrow> tree_node" where
  "insertNode_in targetId newNode position (TreeNode i t d cs e p) =
     (if i = targetId \<and> position = Child
      then TreeNode i t d (cs @ [updateNodeDepth newNode (d + 1) (Some i)]) True p
      else if length cs > 0
      then (let childIndex = findIndex (\<lambda>child. node_id child = targetId) cs in
            if childIndex \<noteq> - 1 \<and> (position = Before \<or> position = After)
            then TreeNode i t d
                   (splice_insert
                      (nat (if position = Before then childIndex else childIndex + 1))
                      (updateNodeDepth newNode (depth (cs ! nat childIndex)) (Some i))
                      cs)
                   e p
            else TreeNode i t d (map (insertNode_in targetId newNode position) cs) e p)
      else TreeNode i t d cs e p)"

definition insertNode :: "forest \<Rightarrow> jsstring \<Rightarrow> tree_node \<Rightarrow> drop_position \<Rightarrow> forest" where
  "insertNode nodeList targetId newNode position =
     map (insertNode_in targetId newNode position) nodeList"

text \<open>\<^verbatim>\<open>handleDrop\<close>.\<close>

definition end_drag :: "browser_view \<Rightarrow> browser_view" where
  "end_drag st = st\<lparr>draggingId := None, dropTarget := None\<rparr>"

definition handleDrop :: "browser_view \<Rightarrow> browser_view" where
  "handleDrop st =
     (if falsy (draggingId st) \<or> dropTarget st = None
      then end_drag st
      else (let dragId = the (draggingId st);
                targetId = fst (the (dropTarget st));
                position = snd (the (dropTarget st))
            in case (nodeMap (nodes st) dragId, nodeMap (nodes st) targetId) of
                 (Some sourceNode, Some targetNode) \<Rightarrow>
                   (let rootIndex = findIndex (\<lambda>node. node_id node = targetId) (nodes st);
                        nodesWithoutSource = removeNode (nodes st) dragId;
                        st1 =
                          (if rootIndex \<noteq> - 1 \<and> (position = Before \<or> position = After)
                           then (let targetIndex =
                                       findIndex (\<lambda>node. node_id node = targetId) nodesWithoutSource
                                 in if targetIndex \<noteq> - 1
                                    then (let newNodes =
                                                splice_insert
                                                  (nat (if position = Before then targetIndex
                                                        else targetIndex + 1))
                                                  (updateNodeDepth sourceNode 0 None)
                                                  nodesWithoutSource
                                          in onUpdateNodes newNodes (addToHistory newNodes st))
                                    else st)
                           else (let newNodes =
                                       insertNode nodesWithoutSource targetId sourceNode position
                                 in onUpdateNodes newNodes (addToHistory newNodes st)));
                        st2 =
                          (if position = Child
                           then st1\<lparr>expandedIds := insert targetId (expandedIds st1)\<rparr>
                           else st1)
                    in end_drag st2)
               | _ \<Rightarrow> end_drag st))"

text \<open>
  A drag gesture from start to drop: the row \<open>s\<close> is picked up, the pointer passes
  over the rows \<open>hovers\<close> (each with the position it has there), and the row is
  dropped.
\<close>

definition move :: "jsstring \<Rightarrow> (jsstring \<times> drop_position) list \<Rightarrow> browser_view \<Rightarrow> browser_view" where
  "move s hovers st =
     handleDrop (fold (\<lambda>h. handleDragOver (fst h) (snd h)) hovers (handleDragStart s st))"

section \<open>Notions used to state and prove the properties of the parser\<close>

text \<open>The lines the serialiser collects before it joins them.\<close>

definition serialized_lines :: "forest \<Rightarrow> jsstring list" where
  "serialized_lines ns = concat (map serialize_traverse ns)"

text \<open>The line the serialiser prints for the node the parser makes of a line.\<close>

definition line_out :: "jsstring \<Rightarrow> jsstring" where
  "line_out line = replicate (getIndentDepth line) TAB @ trim (dropWhile (\<lambda>c. c = TAB) line)"

text \<open>
  The arrays the parser may still push onto lie on the right spine of the forest: the
  root array, the children of its last element, the children of that one's last
  element, and so on. The references on the stack point there, each a prefix of the
  ones above it.
\<close>

fun on_spine :: "forest \<Rightarrow> node_ref \<Rightarrow> bool" where
  "on_spine ns [] = True"
| "on_spine ns (i # r) = (ns \<noteq> [] \<and> i = length ns - 1 \<and> on_spine (children (last ns)) r)"

definition stack_ok :: "forest \<Rightarrow> open_node list \<Rightarrow> bool" where
  "stack_ok ns st \<longleftrightarrow>
     (\<forall>e \<in> set st. on_spine ns (ref_children e)) \<and>
     sorted_wrt (\<lambda>a b. prefix (ref_children b) (ref_children a)) st"

text \<open>
  \<open>depth_consistent\<close>: every root has depth 0 and every child has the depth of its
  parent plus one.
\<close>

fun depths_from :: "nat \<Rightarrow> tree_node \<Rightarrow> bool" where
  "depths_from d (TreeNode i t dn cs e p) \<longleftrightarrow> dn = d \<and> (\<forall>c \<in> set cs. depths_from (Suc d) c)"

definition depth_consistent :: "forest \<Rightarrow> bool" where
  "depth_consistent ns \<longleftrightarrow> (\<forall>n \<in> set ns. depths_from 0 n)"

text \<open>
  A text is well indented when its first retained line has no leading tab and every
  later retained line has at most one leading tab more than the retained line before.
\<close>

fun indented_from :: "nat \<Rightarrow> nat list \<Rightarrow> bool" where
  "indented_from b [] = True"
| "indented_from b (d # ds) \<longleftrightarrow> d \<le> b \<and> indented_from (Suc d) ds"

definition well_indented :: "jsstring \<Rightarrow> bool" where
  "well_indented txt \<longleftrightarrow> indented_from 0 (map getIndentDepth (retained_lines txt))"

text \<open>For a well indented text the stack holds one open node of each depth below the top's.\<close>

fun depth_stack :: "open_node list \<Rightarrow> bool" where
  "depth_stack [] = True"
| "depth_stack (e # rest) \<longleftrightarrow>
     ref_depth e = length rest \<and> length (ref_children e) = Suc (ref_depth e) \<and> depth_stack rest"

section \<open>Notions used to state the properties of the editing handlers\<close>

text \<open>
  The ids of the nodes with id \<open>k\<close> and of everything below them: what deleting or
  dragging \<open>k\<close> takes along.
\<close>

fun subtree_ids :: "jsstring \<Rightarrow> forest \<Rightarrow> jsstring list" where
  "subtree_ids k [] = []"
| "subtree_ids k (TreeNode i t d cs e p # ns) =
     (if i = k then i # ids cs else subtree_ids k cs) @ subtree_ids k ns"

text \<open>What a node carries besides its children.\<close>

definition node_fields :: "tree_node \<Rightarrow> jsstring \<times> jsstring \<times> nat \<times> bool \<times> jsstring option" where
  "node_fields n = (node_id n, node_text n, depth n, isExpanded n, parent n)"

section \<open>The visible rows (BrowserView)\<close>

text \<open>\<^verbatim>\<open>interface FlatNode\<close>.\<close>

record flat_node =
  flat_id :: jsstring
  flat_text :: jsstring
  flat_depth :: nat
  hasChildren :: bool
  flat_isExpanded :: bool
  flat_index :: nat

text \<open>
  The \<^verbatim>\<open>traverse\<close> of \<^verbatim>\<open>flatNodes\<close>: it pushes onto \<^verbatim>\<open>result\<close> and counts in
  \<^verbatim>\<open>index\<close>; both are threaded through as a pair.
\<close>

fun flat_traverse ::
  "jsstring set \<Rightarrow> tree_node \<Rightarrow> flat_node list \<times> nat \<Rightarrow> flat_node list \<times> nat" where
  "flat_traverse expanded (TreeNode i t d cs e p) acc =
     (let isExp = (i \<in> expanded);
          acc' = (fst acc @ [\<lparr>flat_id = i, flat_text = t, flat_depth = d,
                              hasChildren = (length cs > 0), flat_isExpanded = isExp,
                              flat_index = snd acc\<rparr>],
                  snd acc + 1)
      in if isExp then fold (flat_traverse expanded) cs acc' else acc')"

definition flatNodes :: "forest \<Rightarrow> jsstring set \<Rightarrow> flat_node list" where
  "flatNodes ns expanded = fst (fold (flat_traverse expanded) ns ([], 0))"

text \<open>\<^verbatim>\<open>handleToggle\<close>.\<close>

definition handleToggle :: "jsstring \<Rightarrow> browser_view \<Rightarrow> browser_view" where
  "handleToggle k st =
     st\<lparr>expandedIds := (if k \<in> expandedIds st then expandedIds st - {k}
                         else insert k (expandedIds st))\<rparr>"

section \<open>Notions used to state the properties of the flattening\<close>

text \<open>
  The pre-order of a forest, each node marked with whether all the nodes above it are
  expanded.
\<close>

fun marked :: "bool \<Rightarrow> forest \<Rightarrow> (bool \<times> tree_node) list" where
  "marked b [] = []"
| "marked b (TreeNode i t d cs e p # ns) =
     (b, TreeNode i t d cs e p) # marked (b \<and> e) cs @ marked b ns"

text \<open>The ids of the nodes below the nodes with id \<open>k\<close>.\<close>

fun descendant_ids :: "jsstring \<Rightarrow> forest \<Rightarrow> jsstring list" where
  "descendant_ids k [] = []"
| "descendant_ids k (TreeNode i t d cs e p # ns) =
     (if i = k then ids cs else descendant_ids k cs) @ descendant_ids k ns"

text \<open>The ids of the rows shown when the nodes with an id in \<open>expanded\<close> are open.\<close>

fun visible_ids :: "jsstring set \<Rightarrow> forest \<Rightarrow> jsstring list" where
  "visible_ids expanded [] = []"
| "visible_ids expanded (TreeNode i t d cs e p # ns) =
     i # (if i \<in> expanded then visible_ids expanded cs else []) @ visible_ids expanded ns"

text \<open>
  The same pre-order for \<^verbatim>\<open>flatNodes\<close>: each node is marked with whether the ids
  of all the nodes above it are in \<open>expanded\<close>. \<open>flat_row\<close> is the row
  \<^verbatim>\<open>flatNodes\<close> makes of a node at a given index.
\<close>

fun marked_in :: "jsstring set \<Rightarrow> bool \<Rightarrow> forest \<Rightarrow> (bool \<times> tree_node) list" where
  "marked_in expanded b [] = []"
| "marked_in expanded b (TreeNode i t d cs e p # ns) =
     (b, TreeNode i t d cs e p) #
     marked_in expanded (b \<and> i \<in> expanded) cs @ marked_in expanded b ns"

definition flat_row :: "jsstring set \<Rightarrow> nat \<times> tree_node \<Rightarrow> flat_node" where
  "flat_row expanded kn =
     \<lparr>flat_id = node_id (snd kn), flat_text = node_text (snd kn), flat_depth = depth (snd kn),
      hasChildren = (length (children (snd kn)) > 0),
      flat_isExpanded = (node_id (snd kn) \<in> expanded), flat_index = fst kn\<rparr>"

section \<open>Notions used to state the properties of drag and drop\<close>

text \<open>
  No node has its own id among the ids of the nodes below it: no node is an ancestor
  of itself.
\<close>

fun no_self_ancestor :: "forest \<Rightarrow> bool" where
  "no_self_ancestor [] = True"
| "no_self_ancestor (TreeNode i t d cs e p # ns) \<longleftrightarrow>
     i \<notin> set (ids cs) \<and> no_self_ancestor cs \<and> no_self_ancestor ns"

text \<open>What \<^verbatim>\<open>handleDragOver\<close> has checked of a drop target it lets stand.\<close>

definition droppable :: "forest \<Rightarrow> jsstring \<Rightarrow> jsstring \<Rightarrow> bool" where
  "droppable ns s t \<longleftrightarrow>
     s \<noteq> [] \<and> s \<noteq> t \<and>
     (case nodeMap ns s of
        None \<Rightarrow> False
      | Some sn \<Rightarrow> (case nodeMap ns t of None \<Rightarrow> False | Some tn \<Rightarrow> \<not> isDescendant sn t))"

definition target_checked :: "forest \<Rightarrow> jsstring \<Rightarrow> (jsstring \<times> drop_position) option \<Rightarrow> bool" where
  "target_checked ns s dt \<longleftrightarrow> (case dt of None \<Rightarrow> True | Some tp \<Rightarrow> droppable ns s (fst tp))"

text \<open>What \<^verbatim>\<open>updateNodeDepth\<close> leaves alone in a node.\<close>

definition outline :: "tree_node \<Rightarrow> jsstring \<times> jsstring \<times> bool \<times> nat" where
  "outline n = (node_id n, node_text n, isExpanded n, length (children n))"

section \<open>Properties of the history\<close>

lemma history_ok_mount: "history_ok (mount ns)"
  by (simp add: history_ok_def mount_def)

lemma push_unfold:
  "push x st =
     (if 50 < length (take (historyIndex st + 1) (history st) @ [x])
      then st\<lparr>history := tl (take (historyIndex st + 1) (history st) @ [x]), nodes := x\<rparr>
      else st\<lparr>history := take (historyIndex st + 1) (history st) @ [x],
              historyIndex := length (take (historyIndex st + 1) (history st) @ [x]) - 1,
              nodes := x\<rparr>)"
  by (simp add: push_def addToHistory_def onUpdateNodes_def Let_def)

lemma push_result:
  assumes "history_ok st"
  shows "history (push x st) =
           (let h = take (historyIndex st + 1) (history st) @ [x] in drop (length h - 50) h)"
    and "historyIndex (push x st) = length (history (push x st)) - 1"
    and "nodes (push x st) = x"
proof -
  define h where "h = take (historyIndex st + 1) (history st) @ [x]"
  have len: "length h = historyIndex st + 2"
    using assms by (simp add: history_ok_def h_def)
  have p: "push x st =
     (if 50 < length h then st\<lparr>history := tl h, nodes := x\<rparr>
      else st\<lparr>history := h, historyIndex := length h - 1, nodes := x\<rparr>)"
    unfolding h_def by (rule push_unfold)
  have n: "nodes (push x st) = x"
    unfolding p by simp
  have "history (push x st) = drop (length h - 50) h \<and>
        historyIndex (push x st) = length (history (push x st)) - 1"
  proof (cases "50 < length h")
    case True
    with len assms have idx: "historyIndex st = 49"
      by (simp add: history_ok_def)
    have l51: "length h = 51" using len idx by simp
    have hh: "history (push x st) = tl h" and i: "historyIndex (push x st) = 49"
      unfolding p using True idx by simp_all
    have "drop (length h - 50) h = drop 1 h" using l51 by simp
    also have "\<dots> = tl h" by (simp only: One_nat_def drop_Suc drop_0)
    finally have d: "drop (length h - 50) h = tl h" .
    have "length (tl h) = 50" using l51 by simp
    with hh i d show ?thesis by simp
  next
    case False
    then have "history (push x st) = h" "historyIndex (push x st) = length h - 1"
      unfolding p by simp_all
    then show ?thesis using False by simp
  qed
  with n show "history (push x st) =
      (let h = take (historyIndex st + 1) (history st) @ [x] in drop (length h - 50) h)"
    and "historyIndex (push x st) = length (history (push x st)) - 1"
    and "nodes (push x st) = x"
    unfolding h_def Let_def by simp_all
qed

lemma history_ok_push:
  assumes "history_ok st"
  shows "history_ok (push x st)"
proof -
  let ?h = "take (historyIndex st + 1) (history st) @ [x]"
  let ?H = "history (push x st)"
  have H: "?H = drop (length ?h - 50) ?h"
    using push_result(1) [OF assms, of x] by (simp add: Let_def)
  have ne: "?H \<noteq> []" unfolding H by simp
  have le: "length ?H \<le> 50" unfolding H by simp
  have "last ?H = x" unfolding H by simp
  then have "?H ! (length ?H - 1) = x" using ne by (simp add: last_conv_nth)
  then show ?thesis
    using ne le push_result(2,3) [OF assms, of x]
    by (simp add: history_ok_def)
qed

lemma handleUndo_ok:
  assumes "history_ok st"
  shows "handleUndo st =
     Some (st\<lparr>historyIndex := historyIndex st - 1, nodes := history st ! (historyIndex st - 1)\<rparr>)"
  using assms by (cases st) (auto simp: history_ok_def handleUndo_def onUpdateNodes_def Let_def)

lemma history_ok_undo_state:
  assumes "history_ok st"
  shows "history_ok (st\<lparr>historyIndex := historyIndex st - k, nodes := history st ! (historyIndex st - k)\<rparr>)"
  using assms by (auto simp: history_ok_def)

lemma handleRedo_ok:
  assumes "history_ok st"
  shows "\<exists>st'. handleRedo st = Some st' \<and> history_ok st'"
  using assms by (auto simp: history_ok_def handleRedo_def onUpdateNodes_def Let_def)

lemma history_step_ok:
  assumes "history_ok st"
  shows "\<exists>st'. history_step op st = Some st' \<and> history_ok st'"
proof (cases op)
  case (Push x)
  then show ?thesis using history_ok_push [OF assms] by simp
next
  case Undo
  then show ?thesis
    using handleUndo_ok [OF assms] history_ok_undo_state [OF assms, of 1] by simp
next
  case Redo
  then show ?thesis using handleRedo_ok [OF assms] by simp
qed

lemma run_ok:
  "history_ok st \<Longrightarrow> \<exists>st'. run ops st = Some st' \<and> history_ok st'"
proof (induction ops arbitrary: st)
  case Nil
  then show ?case by simp
next
  case (Cons op ops)
  from history_step_ok [OF Cons.prems, of op]
  obtain st1 where s: "history_step op st = Some st1" and ok: "history_ok st1" by blast
  from Cons.IH [OF ok] s show ?case by simp
qed

lemma undo_times_ok:
  "history_ok st \<Longrightarrow>
   undo_times k st =
     Some (st\<lparr>historyIndex := historyIndex st - k, nodes := history st ! (historyIndex st - k)\<rparr>)"
proof (induction k arbitrary: st)
  case 0
  then show ?case by (cases st) (simp add: history_ok_def)
next
  case (Suc k)
  let ?st1 = "st\<lparr>historyIndex := historyIndex st - 1, nodes := history st ! (historyIndex st - 1)\<rparr>"
  have ok1: "history_ok ?st1" using history_ok_undo_state [OF Suc.prems, of 1] .
  show ?case
    using Suc.IH [OF ok1] handleUndo_ok [OF Suc.prems] by simp
qed


lemma run_mount_ok: "\<exists>st. run ops (mount t0) = Some st \<and> history_ok st"
  by (rule run_ok [OF history_ok_mount])

lemma drop_window_snoc:
  assumes "length w = n"
  shows "drop (length (drop (n - 50) w @ [x]) - 50) (drop (n - 50) w @ [x]) =
         drop (length (w @ [x]) - 50) (w @ [x])"
proof (cases "n < 50")
  case True
  with assms show ?thesis by simp
next
  case False
  then have a: "Suc (n - 50) = n - 49" by arith
  from False assms have "length (drop (n - 50) w @ [x]) - 50 = 1" by simp
  moreover have "drop 1 (drop (n - 50) w @ [x]) = drop (n - 49) w @ [x]"
    using False assms a by simp
  moreover have "drop (length (w @ [x]) - 50) (w @ [x]) = drop (n - 49) w @ [x]"
    using False assms by simp
  ultimately show ?thesis by simp
qed

lemma fold_push_window:
  assumes "history_ok st"
    and "historyIndex st = length (history st) - 1"
    and "history st = drop (length w - 50) w"
  shows "history_ok (fold push ps st) \<and>
         historyIndex (fold push ps st) = length (history (fold push ps st)) - 1 \<and>
         history (fold push ps st) = drop (length (w @ ps) - 50) (w @ ps)"
  using assms
proof (induction ps arbitrary: st w)
  case Nil
  then show ?case by simp
next
  case (Cons x ps)
  have ne: "history st \<noteq> []" using Cons.prems(1) by (simp add: history_ok_def)
  have tk: "take (historyIndex st + 1) (history st) = history st"
    using Cons.prems(2) ne by simp
  have "history (push x st) = drop (length (history st @ [x]) - 50) (history st @ [x])"
    using push_result(1) [OF Cons.prems(1), of x] unfolding tk Let_def .
  also have "\<dots> = drop (length (w @ [x]) - 50) (w @ [x])"
    unfolding Cons.prems(3) by (rule drop_window_snoc [OF refl])
  finally have h1: "history (push x st) = drop (length (w @ [x]) - 50) (w @ [x])" .
  have "history_ok (fold push ps (push x st)) \<and>
        historyIndex (fold push ps (push x st)) = length (history (fold push ps (push x st))) - 1 \<and>
        history (fold push ps (push x st)) = drop (length ((w @ [x]) @ ps) - 50) ((w @ [x]) @ ps)"
    by (rule Cons.IH [OF history_ok_push [OF Cons.prems(1)] push_result(2) [OF Cons.prems(1)] h1])
  then show ?case by simp
qed

lemma fold_push_mount:
  "history_ok (fold push ps (mount t0)) \<and>
   historyIndex (fold push ps (mount t0)) = length (history (fold push ps (mount t0))) - 1 \<and>
   history (fold push ps (mount t0)) = drop (length (t0 # ps) - 50) (t0 # ps)"
  using fold_push_window [OF history_ok_mount, of t0 "[t0]" ps]
  by (simp add: mount_def)

text \<open>
  Claim C6. The history never holds more than 50 snapshots. A push cuts the history
  after the cursor, appends the new snapshot and keeps the most recent 50 entries, with
  the cursor on the last one. After 51 pushes in a row, undoing 49 times or more stops
  at the second of the pushed trees: the first one (and the tree shown at mount) has
  been evicted, and a further undo changes nothing.
\<close>

theorem history_capacity:
  assumes "run ops (mount t0) = Some st" and "length ps = 51" and "49 \<le> k"
  shows "length (history st) \<le> 50 \<and>
         history (push x st) =
           (let h = take (historyIndex st + 1) (history st) @ [x] in drop (length h - 50) h) \<and>
         historyIndex (push x st) = length (history (push x st)) - 1 \<and>
         length (history (fold push ps (mount t0))) = 50 \<and>
         (\<exists>st'. undo_times k (fold push ps (mount t0)) = Some st' \<and>
            nodes st' = ps ! 1 \<and> historyIndex st' = 0 \<and> history st' = tl ps \<and>
            handleUndo st' = Some st')"
proof -
  from run_mount_ok [of ops t0] assms(1) have ok: "history_ok st" by simp
  let ?s = "fold push ps (mount t0)"
  have f: "history_ok ?s" "historyIndex ?s = length (history ?s) - 1"
    "history ?s = drop (length (t0 # ps) - 50) (t0 # ps)"
    using fold_push_mount [of ps t0] by simp_all
  have h: "history ?s = tl ps" using f(3) assms(2) by (simp add: drop_Suc)
  have l: "length (history ?s) = 50" using h assms(2) by simp
  have i: "historyIndex ?s - k = 0" using f(2) l assms(3) by simp
  have "ps \<noteq> []" using assms(2) by auto
  then have n: "tl ps ! 0 = ps ! 1" by (cases ps) simp_all
  let ?t = "?s\<lparr>historyIndex := 0, nodes := ps ! 1\<rparr>"
  have u: "undo_times k ?s = Some ?t"
    using undo_times_ok [OF f(1), of k] unfolding i h n by simp
  have "handleUndo ?t = Some ?t" by (simp add: handleUndo_def)
  with u h have "\<exists>st'. undo_times k ?s = Some st' \<and>
            nodes st' = ps ! 1 \<and> historyIndex st' = 0 \<and> history st' = tl ps \<and>
            handleUndo st' = Some st'" by simp
  with ok l push_result(1,2) [OF ok, of x] show ?thesis
    by (simp add: history_ok_def)
qed



text \<open>
  Claim C10. Starting from the history at mount (one entry, cursor 0), every sequence
  of pushes, undos and redos runs through, keeps the history non-empty and keeps the
  cursor between 0 and the last index. Undo with the cursor at 0 and redo with the
  cursor on the last entry leave the whole state as it is.
\<close>

theorem history_cursor_in_bounds:
  "\<exists>st. run ops (mount t0) = Some st \<and>
     history st \<noteq> [] \<and> historyIndex st \<le> length (history st) - 1 \<and>
     (historyIndex st = 0 \<longrightarrow> handleUndo st = Some st) \<and>
     (historyIndex st = length (history st) - 1 \<longrightarrow> handleRedo st = Some st)"
proof -
  from run_mount_ok [of ops t0] obtain st where
    r: "run ops (mount t0) = Some st" and ok: "history_ok st" by blast
  have a: "history st \<noteq> []" and b: "historyIndex st \<le> length (history st) - 1"
    using ok by (auto simp: history_ok_def)
  have c: "historyIndex st = 0 \<longrightarrow> handleUndo st = Some st"
    by (simp add: handleUndo_def)
  have d: "historyIndex st = length (history st) - 1 \<longrightarrow> handleRedo st = Some st"
    using ok by (simp add: handleRedo_def history_ok_def)
  from r a b c d show ?thesis
    by - (rule exI [of _ st], intro conjI, assumption+)
qed


theorem history_capacity_witness:
  "length (history (mount [])) \<le> 50 \<and>
   length (history (fold push (map (\<lambda>i. [TreeNode [i] [] 0 [] True None]) [0..<51]) (mount []))) = 50 \<and>
   (\<exists>st'. undo_times 60 (fold push (map (\<lambda>i. [TreeNode [i] [] 0 [] True None]) [0..<51]) (mount []))
            = Some st' \<and>
          nodes st' = [TreeNode [1] [] 0 [] True None] \<and> historyIndex st' = 0)"
proof -
  let ?ps = "map (\<lambda>i. [TreeNode [i] [] 0 [] True None]) [0..<51]"
  have r: "run [] (mount []) = Some (mount [])" by simp
  have l: "length ?ps = 51" by simp
  have k: "(49::nat) \<le> 60" by simp
  have n: "?ps ! 1 = [TreeNode [1] [] 0 [] True None]" by simp
  from history_capacity [OF r l k, of "[]"] obtain st' where
    a: "length (history (mount [])) \<le> 50" and
    b: "length (history (fold push ?ps (mount []))) = 50" and
    c: "undo_times 60 (fold push ?ps (mount [])) = Some st'" and
    d: "nodes st' = ?ps ! 1" and
    e: "historyIndex st' = 0"
    by (elim conjE exE)
  from a b c d [unfolded n] e show ?thesis
    by - (intro conjI exI [of _ st'], assumption+)
qed


theorem history_cursor_in_bounds_witness:
  "\<exists>st. run [Push [TreeNode [65] [65] 0 [] True None], Undo] (mount []) = Some st \<and>
     historyIndex st = 0 \<and> handleUndo st = Some st"
proof -
  let ?ops = "[Push [TreeNode [65] [65] 0 [] True None], Undo]"
  from history_cursor_in_bounds [of ?ops "[]"] obtain st where
    r: "run ?ops (mount []) = Some st" and
    u: "historyIndex st = 0 \<longrightarrow> handleUndo st = Some st" by auto
  from r have i: "historyIndex st = 0"
    by (auto simp: push_def addToHistory_def onUpdateNodes_def mount_def handleUndo_def)
  from r i u show ?thesis by simp
qed

section \<open>Properties of the parser\<close>

lemma split_lines_not_Nil: "split_lines s \<noteq> []"
  by (induction s) (auto split: list.splits)

lemma join_lines_Cons:
  "join_lines (l # ls) = (if ls = [] then l else l @ NEWLINE # join_lines ls)"
  by (cases ls) simp_all

lemma join_split_lines: "join_lines (split_lines s) = s"
proof (induction s)
  case Nil
  show ?case by simp
next
  case (Cons c s)
  obtain l ls where sp: "split_lines s = l # ls"
    using split_lines_not_Nil [of s] by (cases "split_lines s") auto
  show ?case
  proof (cases "c = NEWLINE")
    case True
    with Cons sp show ?thesis by simp
  next
    case False
    with Cons sp show ?thesis by (simp add: join_lines_Cons split: if_splits)
  qed
qed

lemma split_lines_snoc_newline: "split_lines (s @ [NEWLINE]) = split_lines s @ [[]]"
proof (induction s)
  case Nil
  show ?case by simp
next
  case (Cons c s)
  obtain l ls where sp: "split_lines s = l # ls"
    using split_lines_not_Nil [of s] by (cases "split_lines s") auto
  with Cons show ?case by simp
qed

lemma replicate_getIndentDepth:
  "replicate (getIndentDepth l) TAB @ dropWhile (\<lambda>c. c = TAB) l = l"
  by (induction l) simp_all

lemma line_out_tidy:
  "trim (dropWhile (\<lambda>c. c = TAB) l) = dropWhile (\<lambda>c. c = TAB) l \<Longrightarrow> line_out l = l"
  by (simp add: line_out_def replicate_getIndentDepth)

lemma serialized_lines_append [simp]:
  "serialized_lines (xs @ ys) = serialized_lines xs @ serialized_lines ys"
  by (simp add: serialized_lines_def)

lemma serialized_lines_Nil [simp]: "serialized_lines [] = []"
  by (simp add: serialized_lines_def)

lemma serialized_lines_single:
  "serialized_lines [TreeNode a t d cs e p] = (replicate d TAB @ t) # serialized_lines cs"
  by (simp add: serialized_lines_def)

lemma children_push_last:
  "children_push (ns @ [TreeNode a t d cs e p]) (length ns # r) c =
     ns @ [TreeNode a t d (children_push cs r c) e p]"
  by simp

lemma on_spine_snoc:
  "on_spine (ns @ [n]) (i # r) \<longleftrightarrow> i = length ns \<and> on_spine (children n) r"
  by simp

lemma serialized_children_push:
  "on_spine ns r \<Longrightarrow>
   serialized_lines (children_push ns r c) = serialized_lines ns @ serialize_traverse c"
proof (induction r arbitrary: ns)
  case Nil
  show ?case by (simp add: serialized_lines_def)
next
  case (Cons i r)
  from Cons.prems obtain ns' n where ns: "ns = ns' @ [n]"
    by (cases ns rule: rev_cases) auto
  obtain a t d cs e p where n: "n = TreeNode a t d cs e p" by (cases n)
  from Cons.prems have i: "i = length ns'" and sp: "on_spine cs r"
    unfolding ns n by simp_all
  show ?case
    unfolding ns n i children_push_last
    using Cons.IH [OF sp] by (simp add: serialized_lines_single)
qed

lemma on_spine_children_push_new:
  "on_spine ns r \<Longrightarrow> on_spine (children_push ns r c) (r @ [length (children_at ns r)])"
proof (induction r arbitrary: ns)
  case Nil
  show ?case by simp
next
  case (Cons i r)
  from Cons.prems obtain ns' n where ns: "ns = ns' @ [n]"
    by (cases ns rule: rev_cases) auto
  obtain a t d cs e p where n: "n = TreeNode a t d cs e p" by (cases n)
  from Cons.prems have i: "i = length ns'" and sp: "on_spine cs r"
    unfolding ns n by simp_all
  show ?case
    unfolding ns n i using Cons.IH [OF sp] by simp
qed

lemma on_spine_children_push_prefix:
  "on_spine ns r \<Longrightarrow> prefix q r \<Longrightarrow> on_spine (children_push ns r c) q"
proof (induction r arbitrary: ns q)
  case Nil
  then show ?case by simp
next
  case (Cons i r)
  show ?case
  proof (cases q)
    case Nil
    then show ?thesis by simp
  next
    case (Cons j q')
    with Cons.prems(2) have j: "j = i" and pq: "prefix q' r" by simp_all
    from Cons.prems(1) obtain ns' n where ns: "ns = ns' @ [n]"
      by (cases ns rule: rev_cases) auto
    obtain a t d cs e p where n: "n = TreeNode a t d cs e p" by (cases n)
    from Cons.prems(1) have i: "i = length ns'" and sp: "on_spine cs r"
      unfolding ns n by simp_all
    show ?thesis
      unfolding ns n i Cons j using Cons.IH [OF sp pq] by simp
  qed
qed


lemma pop_deeper_suffix: "suffix (pop_deeper d st) st"
  by (induction st) (auto simp: suffix_Cons)

lemma stack_ok_suffix:
  assumes "stack_ok ns st" and "suffix st' st"
  shows "stack_ok ns st'"
proof -
  from assms(2) obtain pre where st: "st = pre @ st'" by (auto simp: suffix_def)
  from assms(1) show ?thesis
    unfolding st stack_ok_def by (auto simp: sorted_wrt_append)
qed

lemma stack_ok_push:
  assumes "stack_ok ns st"
    and "r = (case st of [] \<Rightarrow> [] | par # _ \<Rightarrow> ref_children par)"
  shows "stack_ok (children_push ns r c)
           (\<lparr>ref_children = r @ [length (children_at ns r)], ref_id = i, ref_depth = d\<rparr> # st)"
proof -
  have sp: "on_spine ns r"
    using assms by (cases st) (simp_all add: stack_ok_def)
  have pre: "prefix (ref_children e) r" if "e \<in> set st" for e
    using assms that by (cases st) (auto simp: stack_ok_def)
  have "on_spine (children_push ns r c) (ref_children e)" if "e \<in> set st" for e
    using on_spine_children_push_prefix [OF sp pre [OF that]] .
  moreover have "on_spine (children_push ns r c) (r @ [length (children_at ns r)])"
    by (rule on_spine_children_push_new [OF sp])
  moreover have "prefix (ref_children e) (r @ [length (children_at ns r)])" if "e \<in> set st" for e
    using pre [OF that] by (rule prefix_prefix)
  ultimately show ?thesis
    using assms(1) by (simp add: stack_ok_def)
qed

lemma parse_line_unfold:
  "parse_line now (index, line) st =
     (let stack' = pop_deeper (getIndentDepth line) (stack st);
          r = (case stack' of [] \<Rightarrow> [] | par # _ \<Rightarrow> ref_children par)
      in \<lparr>parsed = children_push (parsed st) r
                  (TreeNode (parser_id (now index) index) (trim (dropWhile (\<lambda>c. c = TAB) line))
                     (getIndentDepth line) [] True
                     (case stack' of [] \<Rightarrow> None | par # _ \<Rightarrow> Some (ref_id par))),
          stack = \<lparr>ref_children = r @ [length (children_at (parsed st) r)],
                    ref_id = parser_id (now index) index,
                    ref_depth = getIndentDepth line\<rparr> # stack'\<rparr>)"
  by (simp add: parse_line_def Let_def split: list.splits)

lemma parse_line_step:
  assumes "stack_ok (parsed st) (stack st)"
  shows "stack_ok (parsed (parse_line now il st)) (stack (parse_line now il st))"
    and "serialized_lines (parsed (parse_line now il st)) =
           serialized_lines (parsed st) @ [line_out (snd il)]"
proof -
  obtain index line where il: "il = (index, line)" by (cases il)
  define stack' where "stack' = pop_deeper (getIndentDepth line) (stack st)"
  define r where "r = (case stack' of [] \<Rightarrow> [] | par # _ \<Rightarrow> ref_children par)"
  have ok': "stack_ok (parsed st) stack'"
    unfolding stack'_def by (rule stack_ok_suffix [OF assms pop_deeper_suffix])
  have sp: "on_spine (parsed st) r"
    using ok' unfolding r_def by (cases stack') (simp_all add: stack_ok_def)
  show "stack_ok (parsed (parse_line now il st)) (stack (parse_line now il st))"
    unfolding il parse_line_unfold Let_def
    using stack_ok_push [OF ok' r_def] unfolding stack'_def r_def by simp
  show "serialized_lines (parsed (parse_line now il st)) =
           serialized_lines (parsed st) @ [line_out (snd il)]"
    unfolding il parse_line_unfold Let_def
    using serialized_children_push [OF sp] unfolding stack'_def r_def
    by (simp add: line_out_def)
qed

lemma parse_fold:
  "stack_ok (parsed st) (stack st) \<Longrightarrow>
   serialized_lines (parsed (fold (parse_line now) ils st)) =
     serialized_lines (parsed st) @ map line_out (map snd ils)"
proof (induction ils arbitrary: st)
  case Nil
  show ?case by simp
next
  case (Cons il ils)
  from Cons.IH [OF parse_line_step(1) [OF Cons.prems]] parse_line_step(2) [OF Cons.prems]
  show ?case by simp
qed

lemma serialize_parse:
  "serializeTreeToText (parseTextToTree now txt) = join_lines (map line_out (retained_lines txt))"
proof -
  have "stack_ok (parsed \<lparr>parsed = [], stack = []\<rparr>) (stack \<lparr>parsed = [], stack = []\<rparr>)"
    by (simp add: stack_ok_def)
  from parse_fold [OF this, of now "enumerate 0 (retained_lines txt)"]
  show ?thesis
    by (simp add: serializeTreeToText_def parseTextToTree_def flip: serialized_lines_def)
qed

text \<open>
  Claim C2. For every text whose lines are all non-blank after trimming, are indented
  with leading tabs only and carry no white space at the edges of the text after the
  tabs, serialising the parsed tree gives the text back, character for character: the
  same lines, the same number of leading tabs and the same content on each. The same
  holds when the text ends with one newline more, which the round trip drops.
\<close>

theorem serialize_parse_roundtrip:
  assumes "\<forall>line \<in> set (split_lines txt).
             trim line \<noteq> [] \<and>
             trim (dropWhile (\<lambda>c. c = TAB) line) = dropWhile (\<lambda>c. c = TAB) line"
  shows "serializeTreeToText (parseTextToTree now txt) = txt \<and>
         serializeTreeToText (parseTextToTree now (txt @ [NEWLINE])) = txt"
proof -
  have keep: "retained_lines txt = split_lines txt"
    using assms by (simp add: retained_lines_def)
  have "trim [] = []" by (simp add: trim_def)
  then have keep': "retained_lines (txt @ [NEWLINE]) = split_lines txt"
    using assms by (simp add: retained_lines_def split_lines_snoc_newline)
  have out: "map line_out (split_lines txt) = split_lines txt"
    using assms by (simp add: map_idI line_out_tidy)
  show ?thesis
    unfolding serialize_parse keep keep' out join_split_lines by simp
qed

theorem serialize_parse_roundtrip_witness:
  "serializeTreeToText (parseTextToTree (\<lambda>k. 1700000000000) [65, 10, 9, 66, 10, 9, 9, 67, 10, 68])
     = [65, 10, 9, 66, 10, 9, 9, 67, 10, 68] \<and>
   serializeTreeToText (parseTextToTree (\<lambda>k. 1700000000000) [65, 10, 9, 66, 10, 9, 9, 67, 10, 68, 10])
     = [65, 10, 9, 66, 10, 9, 9, 67, 10, 68]"
proof -
  have "\<forall>line \<in> set (split_lines [65, 10, 9, 66, 10, 9, 9, 67, 10, 68]).
          trim line \<noteq> [] \<and>
          trim (dropWhile (\<lambda>c. c = TAB) line) = dropWhile (\<lambda>c. c = TAB) line"
    by (simp add: trim_def is_white_space_def TAB_def NEWLINE_def)
  from serialize_parse_roundtrip [OF this, of "\<lambda>k. 1700000000000"]
  show ?thesis by (simp add: NEWLINE_def)
qed


lemma pop_deeper_depth_stack:
  "depth_stack st \<Longrightarrow> d \<le> length st \<Longrightarrow>
   depth_stack (pop_deeper d st) \<and> length (pop_deeper d st) = d"
  by (induction st) auto

lemma depths_children_push:
  "\<forall>n \<in> set ns. depths_from b n \<Longrightarrow> depths_from (b + length r) c \<Longrightarrow>
   \<forall>n \<in> set (children_push ns r c). depths_from b n"
proof (induction r arbitrary: ns b)
  case Nil
  then show ?case by simp
next
  case (Cons i r)
  show ?case
  proof (cases "i < length ns")
    case False
    with Cons.prems(1) show ?thesis by simp
  next
    case True
    obtain a t d cs e p where n: "ns ! i = TreeNode a t d cs e p" by (cases "ns ! i")
    from Cons.prems(1) True have "depths_from b (ns ! i)" by simp
    then have d: "d = b" and cs: "\<forall>c \<in> set cs. depths_from (Suc b) c"
      unfolding n by simp_all
    from Cons.prems(2) have "depths_from (Suc b + length r) c" by simp
    from Cons.IH [OF cs this]
    have "depths_from b (TreeNode a t d (children_push cs r c) e p)"
      using d by simp
    moreover have "set (ns[i := TreeNode a t d (children_push cs r c) e p])
        \<subseteq> insert (TreeNode a t d (children_push cs r c) e p) (set ns)"
      by (rule set_update_subset_insert)
    ultimately show ?thesis
      using Cons.prems(1) True n by auto
  qed
qed

lemma parse_line_depths:
  assumes "depth_consistent (parsed st)" and "depth_stack (stack st)"
    and "getIndentDepth (snd il) \<le> length (stack st)"
  shows "depth_consistent (parsed (parse_line now il st))"
    and "depth_stack (stack (parse_line now il st))"
    and "length (stack (parse_line now il st)) = Suc (getIndentDepth (snd il))"
proof -
  obtain index line where il: "il = (index, line)" by (cases il)
  define d where "d = getIndentDepth line"
  define stack' where "stack' = pop_deeper d (stack st)"
  define r where "r = (case stack' of [] \<Rightarrow> [] | par # _ \<Rightarrow> ref_children par)"
  have dl: "d \<le> length (stack st)" using assms(3) by (simp add: il d_def)
  have ds': "depth_stack stack'" and len': "length stack' = d"
    using pop_deeper_depth_stack [OF assms(2) dl] by (simp_all add: stack'_def)
  have lr: "length r = d"
    using ds' len' unfolding r_def by (cases stack') auto
  have p: "parse_line now il st =
      \<lparr>parsed = children_push (parsed st) r
                  (TreeNode (parser_id (now index) index) (trim (dropWhile (\<lambda>c. c = TAB) line))
                     d [] True
                     (case stack' of [] \<Rightarrow> None | par # _ \<Rightarrow> Some (ref_id par))),
       stack = \<lparr>ref_children = r @ [length (children_at (parsed st) r)],
                 ref_id = parser_id (now index) index,
                 ref_depth = d\<rparr> # stack'\<rparr>"
    unfolding il parse_line_unfold Let_def d_def stack'_def r_def ..
  define c where "c = TreeNode (parser_id (now index) index)
      (trim (dropWhile (\<lambda>c. c = TAB) line)) d [] True
      (case stack' of [] \<Rightarrow> None | par # _ \<Rightarrow> Some (ref_id par))"
  have "depths_from (0 + length r) c" unfolding c_def lr by simp
  moreover have "\<forall>n \<in> set (parsed st). depths_from 0 n"
    using assms(1) by (simp add: depth_consistent_def)
  ultimately have "\<forall>n \<in> set (children_push (parsed st) r c). depths_from 0 n"
    by (rule depths_children_push [rotated])
  then show "depth_consistent (parsed (parse_line now il st))"
    unfolding p depth_consistent_def c_def by simp
  show "depth_stack (stack (parse_line now il st))"
    unfolding p using ds' len' lr by simp
  show "length (stack (parse_line now il st)) = Suc (getIndentDepth (snd il))"
    unfolding p using len' by (simp add: il d_def)
qed

lemma parse_fold_depths:
  "depth_consistent (parsed st) \<Longrightarrow> depth_stack (stack st) \<Longrightarrow>
   indented_from (length (stack st)) (map (\<lambda>il. getIndentDepth (snd il)) ils) \<Longrightarrow>
   depth_consistent (parsed (fold (parse_line now) ils st))"
proof (induction ils arbitrary: st)
  case Nil
  then show ?case by simp
next
  case (Cons il ils)
  from Cons.prems(3) have le: "getIndentDepth (snd il) \<le> length (stack st)"
    and rest: "indented_from (Suc (getIndentDepth (snd il))) (map (\<lambda>il. getIndentDepth (snd il)) ils)"
    by simp_all
  note step = parse_line_depths [OF Cons.prems(1,2) le, of now]
  from Cons.IH [OF step(1,2)] rest step(3) show ?case by simp
qed

text \<open>
  Claim C3, as amended. The parser stores the number of leading tabs of a line as the
  depth of its node, whatever the parent is. For every well indented text (no leading
  tab on the first retained line, at most one tab more from one retained line to the
  next) every root of the parsed forest has depth 0 and every child has the depth of
  its parent plus one.
\<close>

theorem parser_depths_well_indented:
  assumes "well_indented txt"
  shows "depth_consistent (parseTextToTree now txt)"
proof -
  have m: "map (\<lambda>il. getIndentDepth (snd il)) (enumerate 0 (retained_lines txt)) =
           map getIndentDepth (retained_lines txt)"
    by (simp add: map_snd_enumerate flip: map_map [unfolded comp_def])
  have "depth_consistent (parsed (fold (parse_line now) (enumerate 0 (retained_lines txt))
          \<lparr>parsed = [], stack = []\<rparr>))"
    by (rule parse_fold_depths) (use assms in \<open>simp_all add: depth_consistent_def well_indented_def m\<close>)
  then show ?thesis by (simp add: parseTextToTree_def)
qed

text \<open>
  The claim as stated fails on the text of one line, tab A, whose root gets depth 1,
  and on the two lines A and tab tab B, where the child of a root of depth 0 gets
  depth 2.
\<close>

theorem parser_depths_counterexample:
  "\<not> depth_consistent (parseTextToTree (\<lambda>k. 0) [9, 65]) \<and>
   \<not> depth_consistent (parseTextToTree (\<lambda>k. 0) [65, 10, 9, 9, 66])"
  by (simp add: depth_consistent_def parseTextToTree_def retained_lines_def parse_line_def
      trim_def is_white_space_def TAB_def NEWLINE_def Let_def enumerate_eq_zip)


theorem parser_depths_well_indented_witness:
  "well_indented [65, 10, 9, 66, 10, 9, 9, 67, 10, 68] \<and>
   depth_consistent (parseTextToTree (\<lambda>k. 1700000000000) [65, 10, 9, 66, 10, 9, 9, 67, 10, 68])"
proof -
  have w: "well_indented [65, 10, 9, 66, 10, 9, 9, 67, 10, 68]"
    by (simp add: well_indented_def retained_lines_def trim_def is_white_space_def
        TAB_def NEWLINE_def)
  from parser_depths_well_indented [OF w] w show ?thesis by simp
qed

section \<open>Properties of the editing handlers\<close>

lemma ids_simps [simp]:
  "ids [] = []"
  "ids (TreeNode i t d cs e p # ns) = i # ids cs @ ids ns"
  by (simp_all add: ids_def)

lemma all_nodes_append [simp]: "all_nodes (xs @ ys) = all_nodes xs @ all_nodes ys"
  by (induction xs rule: all_nodes.induct) simp_all

lemma ids_append [simp]: "ids (xs @ ys) = ids xs @ ids ys"
  by (simp add: ids_def)

lemma removeNode_simps [simp]:
  "removeNode [] k = []"
  "removeNode (TreeNode i t d cs e p # ns) k =
     (if i = k then removeNode ns k
      else TreeNode i t d (removeNode cs k) e p # removeNode ns k)"
  by (simp_all add: removeNode_def)

lemma removeNode_absent: "k \<notin> set (ids ns) \<Longrightarrow> removeNode ns k = ns"
  by (induction ns rule: all_nodes.induct) auto

lemma updateText_absent:
  "k \<notin> set (ids ns) \<Longrightarrow> map (updateText_updateNode k newText) ns = ns"
  by (induction ns rule: all_nodes.induct) auto

lemma addChild_absent:
  "k \<notin> set (ids ns) \<Longrightarrow> map (addChild_updateNode now k) ns = ns"
  by (induction ns rule: all_nodes.induct) auto

lemma fold_build_simps [simp]:
  "fold build [] m = m"
  "fold build (TreeNode i t d cs e p # ns) m =
     fold build ns (fold build cs (m(i \<mapsto> TreeNode i t d cs e p)))"
  by simp_all

lemma fold_build_absent: "k \<notin> set (ids ns) \<Longrightarrow> fold build ns m k = m k"
  by (induction ns arbitrary: m rule: all_nodes.induct) auto

lemma nodeMap_absent: "k \<notin> set (ids ns) \<Longrightarrow> nodeMap ns k = None"
  by (simp add: nodeMap_def fold_build_absent)

lemma fold_build_Some:
  "fold build ns m k = Some n \<Longrightarrow> (n \<in> set (all_nodes ns) \<and> node_id n = k) \<or> m k = Some n"
proof (induction ns arbitrary: m rule: all_nodes.induct)
  case 1
  then show ?case by simp
next
  case (2 i t d cs e p ns)
  from "2.prems" have "fold build ns (fold build cs (m(i \<mapsto> TreeNode i t d cs e p))) k = Some n"
    by simp
  from "2.IH"(2) [OF this] show ?case
  proof
    assume "n \<in> set (all_nodes ns) \<and> node_id n = k"
    then show ?thesis by simp
  next
    assume "fold build cs (m(i \<mapsto> TreeNode i t d cs e p)) k = Some n"
    from "2.IH"(1) [OF this] show ?thesis
      by (auto split: if_splits)
  qed
qed

lemma nodeMap_Some: "nodeMap ns k = Some n \<Longrightarrow> n \<in> set (all_nodes ns) \<and> node_id n = k"
  using fold_build_Some [of ns Map.empty k n] by (simp add: nodeMap_def)

lemma fold_build_present:
  "k \<in> set (ids ns) \<Longrightarrow> \<exists>n. fold build ns m k = Some n"
proof (induction ns arbitrary: m rule: all_nodes.induct)
  case 1
  then show ?case by simp
next
  case (2 i t d cs e p ns)
  show ?case
  proof (cases "k \<in> set (ids ns)")
    case True
    from "2.IH"(2) [OF this] show ?thesis by simp
  next
    case False
    note notin = this
    show ?thesis
    proof (cases "k \<in> set (ids cs)")
      case True
      from "2.IH"(1) [OF this] show ?thesis
        by (simp add: fold_build_absent [OF notin])
    next
      case False
      with notin "2.prems" have "i = k" by simp
      then show ?thesis
        by (simp add: fold_build_absent [OF notin] fold_build_absent [OF False])
    qed
  qed
qed

lemma nodeMap_present: "k \<in> set (ids ns) \<Longrightarrow> \<exists>n. nodeMap ns k = Some n"
  by (simp add: nodeMap_def fold_build_present)


text \<open>
  Claim C5, as amended. For an id that is not in the tree every one of the four
  handlers leaves the tree as it is. \<^verbatim>\<open>handleAddSibling\<close> returns before it touches
  the history; \<^verbatim>\<open>handleDelete\<close>, \<^verbatim>\<open>handleUpdateText\<close> and
  \<^verbatim>\<open>handleAddChild\<close> look nothing up and call \<^verbatim>\<open>addToHistory\<close> as always:
  each pushes one snapshot, equal to the tree on display. (Every call in BrowserView
  passes the id of a row it has rendered from the same tree.)
\<close>

theorem absent_id_still_pushes:
  assumes "k \<notin> set (ids (nodes st))"
  shows "handleAddSibling now k st = st \<and>
         handleDelete k st = push (nodes st) st \<and>
         handleUpdateText k newText st = (push (nodes st) st)\<lparr>editingId := None\<rparr> \<and>
         handleAddChild now k st =
           (push (nodes st) st)\<lparr>expandedIds := insert k (expandedIds st)\<rparr> \<and>
         nodes (push (nodes st) st) = nodes st"
proof -
  have "handleAddSibling now k st = st"
    by (simp add: handleAddSibling_def nodeMap_absent [OF assms])
  moreover have "handleDelete k st = push (nodes st) st"
    by (simp add: handleDelete_def push_def Let_def removeNode_absent [OF assms])
  moreover have "handleUpdateText k newText st = (push (nodes st) st)\<lparr>editingId := None\<rparr>"
    by (simp add: handleUpdateText_def push_def Let_def removeNode_absent [OF assms]
        updateText_absent [OF assms])
  moreover have "handleAddChild now k st =
      (push (nodes st) st)\<lparr>expandedIds := insert k (expandedIds st)\<rparr>"
    by (simp add: handleAddChild_def push_def Let_def addChild_absent [OF assms])
  moreover have "nodes (push (nodes st) st) = nodes st"
    by (simp add: push_def onUpdateNodes_def)
  ultimately show ?thesis by (intro conjI)
qed

text \<open>
  The claim as stated fails: deleting the id Z in the one-node tree A takes the history
  from one entry to two.
\<close>

theorem absent_id_no_push_counterexample:
  "history (handleDelete [90] (mount [TreeNode [65] [65] 0 [] True None])) =
     [[TreeNode [65] [65] 0 [] True None], [TreeNode [65] [65] 0 [] True None]] \<and>
   history (mount [TreeNode [65] [65] 0 [] True None]) = [[TreeNode [65] [65] 0 [] True None]] \<and>
   [90] \<notin> set (ids (nodes (mount [TreeNode [65] [65] 0 [] True None])))"
  by (simp add: handleDelete_def removeNode_def addToHistory_def onUpdateNodes_def mount_def
      Let_def)

theorem absent_id_still_pushes_witness:
  "history (handleDelete [90] (mount [TreeNode [65] [65] 0 [] True None])) =
     [[TreeNode [65] [65] 0 [] True None], [TreeNode [65] [65] 0 [] True None]] \<and>
   historyIndex (handleDelete [90] (mount [TreeNode [65] [65] 0 [] True None])) = 1 \<and>
   history (handleUpdateText [90] [66] (mount [TreeNode [65] [65] 0 [] True None])) =
     [[TreeNode [65] [65] 0 [] True None], [TreeNode [65] [65] 0 [] True None]] \<and>
   history (handleAddChild 7 [90] (mount [TreeNode [65] [65] 0 [] True None])) =
     [[TreeNode [65] [65] 0 [] True None], [TreeNode [65] [65] 0 [] True None]] \<and>
   history (handleAddSibling 7 [90] (mount [TreeNode [65] [65] 0 [] True None])) =
     [[TreeNode [65] [65] 0 [] True None]]"
proof -
  let ?st = "mount [TreeNode [65] [65] 0 [] True None]"
  have a: "[90] \<notin> set (ids (nodes ?st))" by (simp add: mount_def)
  have p: "history (push (nodes ?st) ?st) =
      [[TreeNode [65] [65] 0 [] True None], [TreeNode [65] [65] 0 [] True None]]"
    "historyIndex (push (nodes ?st) ?st) = 1"
    by (simp_all add: push_def addToHistory_def onUpdateNodes_def mount_def)
  have m: "history ?st = [[TreeNode [65] [65] 0 [] True None]]" by (simp add: mount_def)
  from absent_id_still_pushes [OF a, of 7 "[66]"] p m show ?thesis by simp
qed

lemma node_fields_simp [simp]: "node_fields (TreeNode i t d cs e p) = (i, t, d, e, p)"
  by (simp add: node_fields_def)

lemma ids_single: "ids [n] = node_id n # ids (children n)"
  by (cases n) simp

lemma set_ids: "set (ids ns) = node_id ` set (all_nodes ns)"
  by (simp add: ids_def)

lemma subtree_ids_subset: "set (subtree_ids k ns) \<subseteq> set (ids ns)"
  by (induction ns rule: all_nodes.induct) auto

lemma subtree_ids_absent: "k \<notin> set (ids ns) \<Longrightarrow> subtree_ids k ns = []"
  by (induction ns rule: all_nodes.induct) auto

lemma subtree_ids_node:
  "distinct (ids ns) \<Longrightarrow> n \<in> set (all_nodes ns) \<Longrightarrow> node_id n = k \<Longrightarrow>
   subtree_ids k ns = ids [n]"
proof (induction ns rule: all_nodes.induct)
  case 1
  then show ?case by simp
next
  case (2 i t d cs e p ns)
  from "2.prems"(1) have dc: "distinct (ids cs)" and dn: "distinct (ids ns)"
    and ic: "i \<notin> set (ids cs)" and "i \<notin> set (ids ns)"
    and disj: "set (ids cs) \<inter> set (ids ns) = {}"
    by auto
  from "2.prems"(2) consider
    (here) "n = TreeNode i t d cs e p" | (below) "n \<in> set (all_nodes cs)" | (right) "n \<in> set (all_nodes ns)"
    by auto
  then show ?case
  proof cases
    case here
    with "2.prems"(3) have "i = k" by simp
    moreover from this \<open>i \<notin> set (ids ns)\<close> have "subtree_ids k ns = []"
      by (simp add: subtree_ids_absent)
    ultimately show ?thesis using here by simp
  next
    case below
    with "2.prems"(3) have kc: "k \<in> set (ids cs)" by (auto simp: set_ids)
    with ic disj have "i \<noteq> k" "k \<notin> set (ids ns)" by auto
    then show ?thesis
      using "2.IH"(1) [OF dc below "2.prems"(3)] by (simp add: subtree_ids_absent)
  next
    case right
    with "2.prems"(3) have kn: "k \<in> set (ids ns)" by (auto simp: set_ids)
    with \<open>i \<notin> set (ids ns)\<close> disj have "i \<noteq> k" "k \<notin> set (ids cs)" by auto
    then show ?thesis
      using "2.IH"(2) [OF dn right "2.prems"(3)] by (simp add: subtree_ids_absent)
  qed
qed

lemma filter_fields_disjoint:
  assumes "set (ids xs) \<inter> B = {}"
  shows "filter (\<lambda>f. fst f \<notin> A \<and> fst f \<notin> B) (map node_fields (all_nodes xs)) =
         filter (\<lambda>f. fst f \<notin> A) (map node_fields (all_nodes xs))"
  using assms by (intro filter_cong refl) (auto simp: set_ids node_fields_def)

lemma filter_fields_all:
  assumes "set (ids xs) \<subseteq> B"
  shows "filter (\<lambda>f. fst f \<notin> B) (map node_fields (all_nodes xs)) = []"
  using assms by (auto simp: filter_empty_conv set_ids node_fields_def)

lemma filter_fields_none:
  assumes "set (ids xs) \<inter> B = {}"
  shows "filter (\<lambda>f. fst f \<notin> B) (map node_fields (all_nodes xs)) = map node_fields (all_nodes xs)"
  using assms by (auto simp: filter_id_conv set_ids node_fields_def)

lemma removeNode_fields:
  "distinct (ids ns) \<Longrightarrow>
   map node_fields (all_nodes (removeNode ns k)) =
     filter (\<lambda>f. fst f \<notin> set (subtree_ids k ns)) (map node_fields (all_nodes ns))"
proof (induction ns rule: all_nodes.induct)
  case 1
  show ?case by simp
next
  case (2 i t d cs e p ns)
  from "2.prems"(1) have dc: "distinct (ids cs)" and dn: "distinct (ids ns)"
    and ic: "i \<notin> set (ids cs)" and "in": "i \<notin> set (ids ns)"
    and disj: "set (ids cs) \<inter> set (ids ns) = {}"
    by auto
  show ?case
  proof (cases "i = k")
    case True
    have sub: "subtree_ids k ns = []" using True "in" by (simp add: subtree_ids_absent)
    have "set (ids ns) \<inter> set (k # ids cs) = {}" using True "in" disj by auto
    from filter_fields_none [OF this]
    have f1: "filter (\<lambda>f. fst f \<notin> set (k # ids cs)) (map node_fields (all_nodes ns)) =
              map node_fields (all_nodes ns)" .
    have "set (ids cs) \<subseteq> set (k # ids cs)" by auto
    from filter_fields_all [OF this]
    have f2: "filter (\<lambda>f. fst f \<notin> set (k # ids cs)) (map node_fields (all_nodes cs)) = []" .
    show ?thesis
      using True "in" f1 f2 by (simp add: sub removeNode_absent)
  next
    case False
    have a: "set (ids cs) \<inter> set (subtree_ids k ns) = {}"
      using subtree_ids_subset [of k ns] disj by auto
    have b: "set (ids ns) \<inter> set (subtree_ids k cs) = {}"
      using subtree_ids_subset [of k cs] disj by auto
    have c: "i \<notin> set (subtree_ids k cs)" "i \<notin> set (subtree_ids k ns)"
      using subtree_ids_subset [of k cs] subtree_ids_subset [of k ns] ic "in" by auto
    have fc: "filter (\<lambda>f. fst f \<notin> set (subtree_ids k cs) \<and> fst f \<notin> set (subtree_ids k ns))
                (map node_fields (all_nodes cs)) =
              filter (\<lambda>f. fst f \<notin> set (subtree_ids k cs)) (map node_fields (all_nodes cs))"
      by (rule filter_fields_disjoint [OF a])
    have "filter (\<lambda>f. fst f \<notin> set (subtree_ids k ns) \<and> fst f \<notin> set (subtree_ids k cs))
                (map node_fields (all_nodes ns)) =
              filter (\<lambda>f. fst f \<notin> set (subtree_ids k ns)) (map node_fields (all_nodes ns))"
      by (rule filter_fields_disjoint [OF b])
    then have fn: "filter (\<lambda>f. fst f \<notin> set (subtree_ids k cs) \<and> fst f \<notin> set (subtree_ids k ns))
                (map node_fields (all_nodes ns)) =
              filter (\<lambda>f. fst f \<notin> set (subtree_ids k ns)) (map node_fields (all_nodes ns))"
      by (simp add: conj_commute)
    show ?thesis
      using False c "2.IH"(1) [OF dc] "2.IH"(2) [OF dn]
      by (simp add: fc fn)
  qed
qed

lemma updateText_fields:
  "distinct (ids ns) \<Longrightarrow>
   map node_fields (all_nodes (map (updateText_updateNode k x) ns)) =
     map (\<lambda>n. (node_id n, if node_id n = k then x else node_text n, depth n, isExpanded n, parent n))
       (all_nodes ns) \<and>
   map (\<lambda>n. length (children n)) (all_nodes (map (updateText_updateNode k x) ns)) =
     map (\<lambda>n. length (children n)) (all_nodes ns)"
proof (induction ns rule: all_nodes.induct)
  case 1
  show ?case by simp
next
  case (2 i t d cs e p ns)
  from "2.prems"(1) have dc: "distinct (ids cs)" and dn: "distinct (ids ns)"
    and ic: "i \<notin> set (ids cs)"
    by auto
  show ?case
  proof (cases "i = k")
    case True
    have "map (\<lambda>n. (node_id n, if node_id n = k then x else node_text n, depth n, isExpanded n, parent n))
            (all_nodes cs) = map node_fields (all_nodes cs)"
      using ic True by (intro map_cong refl) (auto simp: set_ids node_fields_def)
    with True "2.IH"(2) [OF dn] show ?thesis
      by simp
  next
    case False
    with "2.IH"(1) [OF dc] "2.IH"(2) [OF dn] show ?thesis
      by simp
  qed
qed


lemma removeNode_removes: "k \<notin> set (ids (removeNode ns k))"
  by (induction ns rule: all_nodes.induct) auto

lemma nodes_handleUpdateText:
  "nodes (handleUpdateText k x st) =
     (if trim x = [] then removeNode (nodes st) k
      else map (updateText_updateNode k x) (nodes st))"
  by (simp add: handleUpdateText_def onUpdateNodes_def Let_def)

text \<open>
  Claim C8. In a tree whose ids are distinct, \<^verbatim>\<open>handleUpdateText\<close> with a text that
  is empty after trimming deletes the node \<open>k\<close> with everything below it: the nodes
  left are the others, in the same order and with the same fields, and \<open>k\<close> is gone.
  With any other text the tree keeps its nodes, their order, ids, depths, flags and
  numbers of children; the text of node \<open>k\<close> becomes the new text and every other
  text stays. (\<open>subtree_ids k\<close> is the id of the node \<open>k\<close> followed by the ids
  of its descendants.)
\<close>

theorem setText_deletes_or_replaces:
  assumes "distinct (ids (nodes st))"
  shows "(trim newText = [] \<longrightarrow>
            map node_fields (all_nodes (nodes (handleUpdateText k newText st))) =
              filter (\<lambda>f. fst f \<notin> set (subtree_ids k (nodes st)))
                (map node_fields (all_nodes (nodes st))) \<and>
            k \<notin> set (ids (nodes (handleUpdateText k newText st)))) \<and>
         (trim newText \<noteq> [] \<longrightarrow>
            map node_fields (all_nodes (nodes (handleUpdateText k newText st))) =
              map (\<lambda>n. (node_id n, if node_id n = k then newText else node_text n,
                         depth n, isExpanded n, parent n))
                (all_nodes (nodes st)) \<and>
            map (\<lambda>n. length (children n)) (all_nodes (nodes (handleUpdateText k newText st))) =
              map (\<lambda>n. length (children n)) (all_nodes (nodes st))) \<and>
         (\<forall>n \<in> set (all_nodes (nodes st)).
            node_id n = k \<longrightarrow> subtree_ids k (nodes st) = node_id n # ids (children n))"
proof (intro conjI impI ballI)
  assume "trim newText = []"
  then have n: "nodes (handleUpdateText k newText st) = removeNode (nodes st) k"
    by (simp add: nodes_handleUpdateText)
  show "map node_fields (all_nodes (nodes (handleUpdateText k newText st))) =
          filter (\<lambda>f. fst f \<notin> set (subtree_ids k (nodes st)))
            (map node_fields (all_nodes (nodes st)))"
    unfolding n by (rule removeNode_fields [OF assms])
  show "k \<notin> set (ids (nodes (handleUpdateText k newText st)))"
    unfolding n by (rule removeNode_removes)
next
  assume "trim newText \<noteq> []"
  then have n: "nodes (handleUpdateText k newText st) =
      map (updateText_updateNode k newText) (nodes st)"
    by (simp add: nodes_handleUpdateText)
  show "map node_fields (all_nodes (nodes (handleUpdateText k newText st))) =
          map (\<lambda>n. (node_id n, if node_id n = k then newText else node_text n,
                     depth n, isExpanded n, parent n))
            (all_nodes (nodes st))"
    unfolding n using updateText_fields [OF assms] by (rule conjunct1)
  show "map (\<lambda>n. length (children n)) (all_nodes (nodes (handleUpdateText k newText st))) =
          map (\<lambda>n. length (children n)) (all_nodes (nodes st))"
    unfolding n using updateText_fields [OF assms] by (rule conjunct2)
next
  fix n assume "n \<in> set (all_nodes (nodes st))" and "node_id n = k"
  from subtree_ids_node [OF assms this]
  show "subtree_ids k (nodes st) = node_id n # ids (children n)"
    by (simp add: ids_single)
qed

theorem setText_deletes_or_replaces_witness:
  "distinct (ids [TreeNode [65] [65] 0
                    [TreeNode [66] [66] 1 [] True (Some [65]),
                     TreeNode [67] [67] 1 [TreeNode [88] [88] 2 [] False (Some [67])] True (Some [65])]
                    True None,
                  TreeNode [68] [68] 0 [] True None]) \<and>
   map node_fields (all_nodes (nodes (handleUpdateText [67] [32, 9]
     (mount [TreeNode [65] [65] 0
               [TreeNode [66] [66] 1 [] True (Some [65]),
                TreeNode [67] [67] 1 [TreeNode [88] [88] 2 [] False (Some [67])] True (Some [65])]
               True None,
             TreeNode [68] [68] 0 [] True None])))) =
     [([65], [65], 0, True, None), ([66], [66], 1, True, Some [65]), ([68], [68], 0, True, None)] \<and>
   map node_fields (all_nodes (nodes (handleUpdateText [67] [70]
     (mount [TreeNode [65] [65] 0
               [TreeNode [66] [66] 1 [] True (Some [65]),
                TreeNode [67] [67] 1 [TreeNode [88] [88] 2 [] False (Some [67])] True (Some [65])]
               True None,
             TreeNode [68] [68] 0 [] True None])))) =
     [([65], [65], 0, True, None), ([66], [66], 1, True, Some [65]),
      ([67], [70], 1, True, Some [65]), ([88], [88], 2, False, Some [67]),
      ([68], [68], 0, True, None)]"
proof -
  define ns where "ns = [TreeNode [65] [65] 0
                    [TreeNode [66] [66] 1 [] True (Some [65]),
                     TreeNode [67] [67] 1 [TreeNode [88] [88] 2 [] False (Some [67])] True (Some [65])]
                    True None,
                  TreeNode [68] [68] 0 [] True None]"
  have n: "nodes (mount ns) = ns" by (simp add: mount_def)
  have d: "distinct (ids (nodes (mount ns)))" unfolding n by (simp add: ns_def)
  have e: "trim [32, 9] = []" by (simp add: trim_def is_white_space_def)
  have f: "trim [70] \<noteq> []" by (simp add: trim_def is_white_space_def)
  have a: "map node_fields (all_nodes (nodes (handleUpdateText [67] [32, 9] (mount ns)))) =
      [([65], [65], 0, True, None), ([66], [66], 1, True, Some [65]), ([68], [68], 0, True, None)]"
    using setText_deletes_or_replaces [OF d, of "[32, 9]" "[67]"] e
    unfolding n by (simp add: ns_def)
  have b: "map node_fields (all_nodes (nodes (handleUpdateText [67] [70] (mount ns)))) =
     [([65], [65], 0, True, None), ([66], [66], 1, True, Some [65]),
      ([67], [70], 1, True, Some [65]), ([88], [88], 2, False, Some [67]),
      ([68], [68], 0, True, None)]"
    using setText_deletes_or_replaces [OF d, of "[70]" "[67]"] f
    unfolding n by (simp add: ns_def)
  from d a b show ?thesis unfolding n unfolding ns_def by (intro conjI)
qed

section \<open>Properties of the flattening\<close>

lemma flattenTree_simps [simp]:
  "flattenTree [] = []"
  "flattenTree (TreeNode i t d cs e p # ns) =
     TreeNode i t d cs e p # (if e then flattenTree cs else []) @ flattenTree ns"
  by (simp_all add: flattenTree_def)

lemma toggleInTree_simps [simp]:
  "toggleInTree k [] = []"
  "toggleInTree k (TreeNode i t d cs e p # ns) =
     (if i = k then TreeNode i t d cs (\<not> e) p else TreeNode i t d (toggleInTree k cs) e p)
     # toggleInTree k ns"
  by (simp_all add: toggleInTree_def)

lemma marked_all_nodes: "map snd (marked b ns) = all_nodes ns"
  by (induction b ns rule: marked.induct) simp_all

lemma marked_False: "filter fst (marked False ns) = []"
  by (induction ns rule: all_nodes.induct) simp_all

lemma flattenTree_marked: "flattenTree ns = map snd (filter fst (marked True ns))"
  by (induction ns rule: all_nodes.induct) (simp_all add: marked_False)

lemma toggleInTree_twice: "toggleInTree k (toggleInTree k ns) = ns"
  by (induction ns rule: all_nodes.induct) simp_all

lemma ids_toggleInTree [simp]: "ids (toggleInTree k ns) = ids ns"
  by (induction ns rule: all_nodes.induct) simp_all

lemma descendant_ids_subset: "set (descendant_ids k ns) \<subseteq> set (ids ns)"
  by (induction ns rule: all_nodes.induct) auto

lemma descendant_ids_absent: "k \<notin> set (ids ns) \<Longrightarrow> descendant_ids k ns = []"
  by (induction ns rule: all_nodes.induct) auto

lemma toggleInTree_absent: "k \<notin> set (ids ns) \<Longrightarrow> toggleInTree k ns = ns"
  by (induction ns rule: all_nodes.induct) auto

lemma flatten_ids_subset: "set (map node_id (flattenTree ns)) \<subseteq> set (ids ns)"
  by (induction ns rule: all_nodes.induct) auto

lemma visible_ids_subset: "set (visible_ids E ns) \<subseteq> set (ids ns)"
  by (induction ns rule: all_nodes.induct) auto

lemma filter_ids_all: "set xs \<subseteq> B \<Longrightarrow> filter (\<lambda>i. i \<notin> B) xs = []"
  by (auto simp: filter_empty_conv)

lemma filter_ids_none: "set xs \<inter> B = {} \<Longrightarrow> filter (\<lambda>i. i \<notin> B) xs = xs"
  by (auto simp: filter_id_conv)

lemma filter_ids_disjoint:
  "set xs \<inter> B = {} \<Longrightarrow> filter (\<lambda>i. i \<notin> A \<and> i \<notin> B) xs = filter (\<lambda>i. i \<notin> A) xs"
  by (intro filter_cong refl) auto

lemma filter_ids_disjoint':
  "set xs \<inter> B = {} \<Longrightarrow> filter (\<lambda>i. i \<notin> B \<and> i \<notin> A) xs = filter (\<lambda>i. i \<notin> A) xs"
  by (intro filter_cong refl) auto


lemma flatten_collapse:
  "distinct (ids ns) \<Longrightarrow> \<forall>n \<in> set (all_nodes ns). node_id n = k \<longrightarrow> isExpanded n \<Longrightarrow>
   map node_id (flattenTree (toggleInTree k ns)) =
     filter (\<lambda>i. i \<notin> set (descendant_ids k ns)) (map node_id (flattenTree ns))"
proof (induction ns rule: all_nodes.induct)
  case 1
  show ?case by simp
next
  case (2 i t d cs e p ns)
  from "2.prems"(1) have dc: "distinct (ids cs)" and dn: "distinct (ids ns)"
    and ic: "i \<notin> set (ids cs)" and "in": "i \<notin> set (ids ns)"
    and disj: "set (ids cs) \<inter> set (ids ns) = {}"
    by auto
  from "2.prems"(2) have ec: "\<forall>n \<in> set (all_nodes cs). node_id n = k \<longrightarrow> isExpanded n"
    and en: "\<forall>n \<in> set (all_nodes ns). node_id n = k \<longrightarrow> isExpanded n"
    by auto
  let ?F = "\<lambda>xs. map node_id (flattenTree xs)"
  have Fc: "set (?F cs) \<subseteq> set (ids cs)" and Fn: "set (?F ns) \<subseteq> set (ids ns)"
    by (rule flatten_ids_subset)+
  show ?case
  proof (cases "i = k")
    case True
    with "2.prems"(2) have e: "e" by simp
    have tn: "toggleInTree k ns = ns" and dn0: "descendant_ids k ns = []"
      using True "in" by (simp_all add: toggleInTree_absent descendant_ids_absent)
    have f1: "filter (\<lambda>i. i \<notin> set (ids cs)) (?F cs) = []"
      by (rule filter_ids_all [OF Fc])
    have "set (?F ns) \<inter> set (ids cs) = {}" using Fn disj by auto
    then have f2: "filter (\<lambda>i. i \<notin> set (ids cs)) (?F ns) = ?F ns"
      by (rule filter_ids_none)
    show ?thesis using True e ic f1 f2 by (simp add: tn dn0)
  next
    case False
    have Dc: "set (descendant_ids k cs) \<subseteq> set (ids cs)"
      and Dn: "set (descendant_ids k ns) \<subseteq> set (ids ns)"
      by (rule descendant_ids_subset)+
    have "set (?F cs) \<inter> set (descendant_ids k ns) = {}" using Fc Dn disj by auto
    then have f1: "filter (\<lambda>i. i \<notin> set (descendant_ids k cs) \<and> i \<notin> set (descendant_ids k ns)) (?F cs) =
        filter (\<lambda>i. i \<notin> set (descendant_ids k cs)) (?F cs)"
      by (rule filter_ids_disjoint)
    have "set (?F ns) \<inter> set (descendant_ids k cs) = {}" using Fn Dc disj by auto
    then have f2: "filter (\<lambda>i. i \<notin> set (descendant_ids k cs) \<and> i \<notin> set (descendant_ids k ns)) (?F ns) =
        filter (\<lambda>i. i \<notin> set (descendant_ids k ns)) (?F ns)"
      by (rule filter_ids_disjoint')
    have i: "i \<notin> set (descendant_ids k cs)" "i \<notin> set (descendant_ids k ns)"
      using Dc Dn ic "in" by auto
    show ?thesis
      using False i "2.IH"(1) [OF dc ec] "2.IH"(2) [OF dn en] by (simp add: f1 f2)
  qed
qed

lemma visible_ids_cong:
  "\<forall>i \<in> set (ids ns). i \<in> E \<longleftrightarrow> i \<in> E' \<Longrightarrow> visible_ids E ns = visible_ids E' ns"
  by (induction ns rule: all_nodes.induct) auto

lemma visible_collapse:
  "distinct (ids ns) \<Longrightarrow>
   visible_ids (E - {k}) ns =
     filter (\<lambda>i. i \<notin> set (descendant_ids k ns)) (visible_ids E ns)"
proof (induction ns rule: all_nodes.induct)
  case 1
  show ?case by simp
next
  case (2 i t d cs e p ns)
  from "2.prems"(1) have dc: "distinct (ids cs)" and dn: "distinct (ids ns)"
    and ic: "i \<notin> set (ids cs)" and "in": "i \<notin> set (ids ns)"
    and disj: "set (ids cs) \<inter> set (ids ns) = {}"
    by auto
  have Fc: "set (visible_ids E cs) \<subseteq> set (ids cs)" and Fn: "set (visible_ids E ns) \<subseteq> set (ids ns)"
    by (rule visible_ids_subset)+
  show ?case
  proof (cases "i = k")
    case True
    have tn: "visible_ids (E - {k}) ns = visible_ids E ns"
      using True "in" by (intro visible_ids_cong) auto
    have dn0: "descendant_ids k ns = []"
      using True "in" by (simp add: descendant_ids_absent)
    have f1: "filter (\<lambda>i. i \<notin> set (ids cs)) (visible_ids E cs) = []"
      by (rule filter_ids_all [OF Fc])
    have "set (visible_ids E ns) \<inter> set (ids cs) = {}" using Fn disj by auto
    then have f2: "filter (\<lambda>i. i \<notin> set (ids cs)) (visible_ids E ns) = visible_ids E ns"
      by (rule filter_ids_none)
    show ?thesis using True ic f1 f2 by (simp add: tn dn0)
  next
    case False
    have Dc: "set (descendant_ids k cs) \<subseteq> set (ids cs)"
      and Dn: "set (descendant_ids k ns) \<subseteq> set (ids ns)"
      by (rule descendant_ids_subset)+
    have "set (visible_ids E cs) \<inter> set (descendant_ids k ns) = {}" using Fc Dn disj by auto
    then have f1: "filter (\<lambda>i. i \<notin> set (descendant_ids k cs) \<and> i \<notin> set (descendant_ids k ns))
          (visible_ids E cs) =
        filter (\<lambda>i. i \<notin> set (descendant_ids k cs)) (visible_ids E cs)"
      by (rule filter_ids_disjoint)
    have "set (visible_ids E ns) \<inter> set (descendant_ids k cs) = {}" using Fn Dc disj by auto
    then have f2: "filter (\<lambda>i. i \<notin> set (descendant_ids k cs) \<and> i \<notin> set (descendant_ids k ns))
          (visible_ids E ns) =
        filter (\<lambda>i. i \<notin> set (descendant_ids k ns)) (visible_ids E ns)"
      by (rule filter_ids_disjoint')
    have i: "i \<notin> set (descendant_ids k cs)" "i \<notin> set (descendant_ids k ns)"
      using Dc Dn ic "in" by auto
    show ?thesis
      using False i "2.IH"(1) [OF dc] "2.IH"(2) [OF dn] by (simp add: f1 f2)
  qed
qed

lemma fold_flat_traverse_ids:
  "map flat_id (fst (fold (flat_traverse E) ns acc)) = map flat_id (fst acc) @ visible_ids E ns"
  by (induction ns arbitrary: acc rule: all_nodes.induct) (simp_all add: Let_def)

lemma flatNodes_ids: "map flat_id (flatNodes ns E) = visible_ids E ns"
  by (simp add: flatNodes_def fold_flat_traverse_ids)


lemma handleToggle_twice: "handleToggle k (handleToggle k st) = st"
  by (cases st) (auto simp: handleToggle_def)

lemma handleToggle_fields:
  "nodes (handleToggle k st) = nodes st"
  "k \<in> expandedIds st \<Longrightarrow> expandedIds (handleToggle k st) = expandedIds st - {k}"
  by (simp_all add: handleToggle_def)

lemma marked_in_all_nodes: "map snd (marked_in E b ns) = all_nodes ns"
  by (induction E b ns rule: marked_in.induct) simp_all

lemma marked_in_False: "filter fst (marked_in E False ns) = []"
  by (induction ns rule: all_nodes.induct) simp_all

lemma enumerate_append: "enumerate k (xs @ ys) = enumerate k xs @ enumerate (k + length xs) ys"
  by (induction xs arbitrary: k) simp_all

lemma fold_flat_traverse:
  "fold (flat_traverse E) ns (acc, k) =
     (acc @ map (flat_row E) (enumerate k (map snd (filter fst (marked_in E True ns)))),
      k + length (filter fst (marked_in E True ns)))"
proof (induction ns arbitrary: acc k rule: all_nodes.induct)
  case 1
  show ?case by simp
next
  case (2 i t d cs e p ns)
  show ?case
  proof (cases "i \<in> E")
    case True
    then show ?thesis
      by (simp add: "2.IH" Let_def flat_row_def marked_in_False enumerate_append)
  next
    case False
    then show ?thesis
      by (simp add: "2.IH"(2) Let_def flat_row_def marked_in_False)
  qed
qed

lemma flatNodes_rows:
  "flatNodes ns E = map (flat_row E) (enumerate 0 (map snd (filter fst (marked_in E True ns))))"
  by (simp add: flatNodes_def fold_flat_traverse)

text \<open>
  Claim C9. \<^verbatim>\<open>flattenTree\<close> walks the forest in pre-order and emits exactly the
  nodes all of whose ancestors are expanded. \<^verbatim>\<open>flatNodes\<close>, for every set of
  expanded ids, does the same with the ids in the set: its rows are those of the nodes
  of the pre-order all of whose ancestors have their id in the set, in that order, each
  with the node's id, text and depth, whether it has children, whether its id is in the
  set, and its position as index. In a tree with distinct ids, collapsing an
  expanded node \<open>k\<close> (\<^verbatim>\<open>toggleNode\<close> on the tree, or \<^verbatim>\<open>handleToggle\<close> on the
  set of expanded ids that \<^verbatim>\<open>flatNodes\<close> reads) removes from the output the
  descendants of \<open>k\<close>, all of them and nothing else, the rest keeping its order; and
  toggling \<open>k\<close> once more gives back the tree (or the set) there was, hence the same
  output.
\<close>

theorem flatten_respects_expansion:
  assumes "distinct (ids (nodes st))"
  shows "flattenTree (nodes st) = map snd (filter fst (marked True (nodes st))) \<and>
         map snd (marked True (nodes st)) = all_nodes (nodes st) \<and>
         ((\<forall>n \<in> set (all_nodes (nodes st)). node_id n = k \<longrightarrow> isExpanded n) \<longrightarrow>
            map node_id (flattenTree (toggleInTree k (nodes st))) =
              filter (\<lambda>i. i \<notin> set (descendant_ids k (nodes st)))
                (map node_id (flattenTree (nodes st)))) \<and>
         toggleInTree k (toggleInTree k (nodes st)) = nodes st \<and>
         (k \<in> expandedIds st \<longrightarrow>
            map flat_id (flatNodes (nodes (handleToggle k st)) (expandedIds (handleToggle k st))) =
              filter (\<lambda>i. i \<notin> set (descendant_ids k (nodes st)))
                (map flat_id (flatNodes (nodes st) (expandedIds st)))) \<and>
         handleToggle k (handleToggle k st) = st \<and>
         flatNodes (nodes st) E =
           map (flat_row E)
             (enumerate 0 (map snd (filter fst (marked_in E True (nodes st))))) \<and>
         map snd (marked_in E True (nodes st)) = all_nodes (nodes st)"
proof (intro conjI impI)
  show "flattenTree (nodes st) = map snd (filter fst (marked True (nodes st)))"
    by (rule flattenTree_marked)
  show "map snd (marked True (nodes st)) = all_nodes (nodes st)"
    by (rule marked_all_nodes)
  show "toggleInTree k (toggleInTree k (nodes st)) = nodes st"
    by (rule toggleInTree_twice)
  show "handleToggle k (handleToggle k st) = st"
    by (rule handleToggle_twice)
  show "flatNodes (nodes st) E =
      map (flat_row E) (enumerate 0 (map snd (filter fst (marked_in E True (nodes st)))))"
    by (rule flatNodes_rows)
  show "map snd (marked_in E True (nodes st)) = all_nodes (nodes st)"
    by (rule marked_in_all_nodes)
next
  assume "\<forall>n \<in> set (all_nodes (nodes st)). node_id n = k \<longrightarrow> isExpanded n"
  with assms show "map node_id (flattenTree (toggleInTree k (nodes st))) =
      filter (\<lambda>i. i \<notin> set (descendant_ids k (nodes st))) (map node_id (flattenTree (nodes st)))"
    by (rule flatten_collapse)
next
  assume "k \<in> expandedIds st"
  then show "map flat_id (flatNodes (nodes (handleToggle k st)) (expandedIds (handleToggle k st))) =
      filter (\<lambda>i. i \<notin> set (descendant_ids k (nodes st)))
        (map flat_id (flatNodes (nodes st) (expandedIds st)))"
    by (simp add: handleToggle_fields flatNodes_ids visible_collapse [OF assms])
qed

theorem flatten_respects_expansion_witness:
  "distinct (ids (nodes (mount
     [TreeNode [65] [65] 0
        [TreeNode [66] [66] 1 [] True (Some [65]),
         TreeNode [67] [67] 1 [TreeNode [88] [88] 2 [] True (Some [67])] True (Some [65])]
        True None,
      TreeNode [68] [68] 0 [] True None]))) \<and>
   map node_id (flattenTree
     [TreeNode [65] [65] 0
        [TreeNode [66] [66] 1 [] True (Some [65]),
         TreeNode [67] [67] 1 [TreeNode [88] [88] 2 [] True (Some [67])] True (Some [65])]
        True None,
      TreeNode [68] [68] 0 [] True None]) = [[65], [66], [67], [88], [68]] \<and>
   map node_id (flattenTree (toggleInTree [67]
     [TreeNode [65] [65] 0
        [TreeNode [66] [66] 1 [] True (Some [65]),
         TreeNode [67] [67] 1 [TreeNode [88] [88] 2 [] True (Some [67])] True (Some [65])]
        True None,
      TreeNode [68] [68] 0 [] True None])) = [[65], [66], [67], [68]] \<and>
   map flat_id (flatNodes
     [TreeNode [65] [65] 0
        [TreeNode [66] [66] 1 [] True (Some [65]),
         TreeNode [67] [67] 1 [TreeNode [88] [88] 2 [] True (Some [67])] True (Some [65])]
        True None,
      TreeNode [68] [68] 0 [] True None]
     (expandedIds (handleToggle [65] (mount
     [TreeNode [65] [65] 0
        [TreeNode [66] [66] 1 [] True (Some [65]),
         TreeNode [67] [67] 1 [TreeNode [88] [88] 2 [] True (Some [67])] True (Some [65])]
        True None,
      TreeNode [68] [68] 0 [] True None])))) = [[65], [68]] \<and>
   flatNodes
     [TreeNode [65] [65] 0
        [TreeNode [66] [66] 1 [] True (Some [65]),
         TreeNode [67] [67] 1 [TreeNode [88] [88] 2 [] True (Some [67])] True (Some [65])]
        True None,
      TreeNode [68] [68] 0 [] True None]
     {[65], [67]} =
     [\<lparr>flat_id = [65], flat_text = [65], flat_depth = 0, hasChildren = True,
       flat_isExpanded = True, flat_index = 0\<rparr>,
      \<lparr>flat_id = [66], flat_text = [66], flat_depth = 1, hasChildren = False,
       flat_isExpanded = False, flat_index = 1\<rparr>,
      \<lparr>flat_id = [67], flat_text = [67], flat_depth = 1, hasChildren = True,
       flat_isExpanded = True, flat_index = 2\<rparr>,
      \<lparr>flat_id = [88], flat_text = [88], flat_depth = 2, hasChildren = False,
       flat_isExpanded = False, flat_index = 3\<rparr>,
      \<lparr>flat_id = [68], flat_text = [68], flat_depth = 0, hasChildren = False,
       flat_isExpanded = False, flat_index = 4\<rparr>]"
proof -
  define ns where "ns = [TreeNode [65] [65] 0
        [TreeNode [66] [66] 1 [] True (Some [65]),
         TreeNode [67] [67] 1 [TreeNode [88] [88] 2 [] True (Some [67])] True (Some [65])]
        True None,
      TreeNode [68] [68] 0 [] True None]"
  have n: "nodes (mount ns) = ns" by (simp add: mount_def)
  have d: "distinct (ids (nodes (mount ns)))" unfolding n by (simp add: ns_def)
  have f: "map node_id (flattenTree ns) = [[65], [66], [67], [88], [68]]"
    by (simp add: ns_def)
  have e: "\<forall>n \<in> set (all_nodes (nodes (mount ns))). node_id n = [67] \<longrightarrow> isExpanded n"
    unfolding n by (simp add: ns_def)
  have a: "map node_id (flattenTree (toggleInTree [67] ns)) = [[65], [66], [67], [68]]"
    using flatten_respects_expansion [OF d, where k = "[67]" and E = "{}"] e unfolding n f
    by (simp add: ns_def)
  have x: "[65] \<in> expandedIds (mount ns)" by (simp add: mount_def ns_def)
  have v: "map flat_id (flatNodes ns (expandedIds (mount ns))) = [[65], [66], [67], [88], [68]]"
    by (simp add: flatNodes_def mount_def ns_def Let_def)
  have b: "map flat_id (flatNodes ns (expandedIds (handleToggle [65] (mount ns)))) = [[65], [68]]"
    using flatten_respects_expansion [OF d, where k = "[65]" and E = "{}"] x
    unfolding n handleToggle_fields(1) v by (simp add: ns_def)
  have "flatNodes (nodes (mount ns)) {[65], [67]} =
      map (flat_row {[65], [67]})
        (enumerate 0 (map snd (filter fst (marked_in {[65], [67]} True (nodes (mount ns))))))"
    using flatten_respects_expansion [OF d, where k = "[65]" and E = "{[65], [67]}"]
    by (elim conjE)
  then have c: "flatNodes ns {[65], [67]} =
     [\<lparr>flat_id = [65], flat_text = [65], flat_depth = 0, hasChildren = True,
       flat_isExpanded = True, flat_index = 0\<rparr>,
      \<lparr>flat_id = [66], flat_text = [66], flat_depth = 1, hasChildren = False,
       flat_isExpanded = False, flat_index = 1\<rparr>,
      \<lparr>flat_id = [67], flat_text = [67], flat_depth = 1, hasChildren = True,
       flat_isExpanded = True, flat_index = 2\<rparr>,
      \<lparr>flat_id = [88], flat_text = [88], flat_depth = 2, hasChildren = False,
       flat_isExpanded = False, flat_index = 3\<rparr>,
      \<lparr>flat_id = [68], flat_text = [68], flat_depth = 0, hasChildren = False,
       flat_isExpanded = False, flat_index = 4\<rparr>]"
    unfolding n by (simp add: ns_def flat_row_def)
  from d f a b c show ?thesis unfolding ns_def by (intro conjI)
qed

section \<open>Properties of drag and drop\<close>

lemma findIndex_none: "findIndex P xs = - 1 \<longleftrightarrow> (\<forall>x \<in> set xs. \<not> P x)"
proof (induction xs)
  case Nil
  show ?case by simp
next
  case (Cons x xs)
  have "- 1 \<le> findIndex P ys" for ys :: "'a list"
    by (induction ys) (auto simp: Let_def)
  from this [of xs] Cons show ?case by (auto simp: Let_def)
qed

lemma ids_concat: "ids ns = concat (map (\<lambda>n. ids [n]) ns)"
  by (induction ns rule: all_nodes.induct) simp_all

lemma ids_map_cong:
  assumes "\<And>c. c \<in> set cs \<Longrightarrow> ids [f c] = ids [c]"
  shows "ids (map f cs) = ids cs"
proof -
  have "ids (map f cs) = concat (map (\<lambda>c. ids [f c]) cs)"
    by (subst ids_concat) (simp add: comp_def)
  also have "\<dots> = concat (map (\<lambda>c. ids [c]) cs)"
    using assms by (simp cong: map_cong)
  also have "\<dots> = ids cs" by (rule ids_concat [symmetric])
  finally show ?thesis .
qed

lemma ids_updateNodeDepth: "ids [updateNodeDepth n d p] = ids [n]"
proof (induction n d p rule: updateNodeDepth.induct)
  case (1 i t d cs e p newDepth newParent)
  show ?case
  proof (cases "length cs > 0")
    case True
    have "ids (map (\<lambda>child. updateNodeDepth child (newDepth + 1) (Some i)) cs) = ids cs"
      by (rule ids_map_cong) (rule "1.IH" [OF True])
    with True show ?thesis by simp
  next
    case False
    then show ?thesis by simp
  qed
qed

lemma depths_updateNodeDepth: "depths_from d (updateNodeDepth n d p)"
proof (induction n d p rule: updateNodeDepth.induct)
  case (1 i t d cs e p newDepth newParent)
  show ?case
  proof (cases "length cs > 0")
    case True
    with "1.IH" [OF True] show ?thesis by simp
  next
    case False
    then show ?thesis by simp
  qed
qed

lemma node_id_updateNodeDepth [simp]: "node_id (updateNodeDepth n d p) = node_id n"
  by (cases n) simp

lemma isDescendant_ids: "isDescendant n t \<longleftrightarrow> t \<in> set (ids [n])"
proof (induction n t rule: isDescendant.induct)
  case (1 i t d cs e p childId)
  have "childId \<in> set (ids cs) \<longleftrightarrow> (\<exists>child \<in> set cs. childId \<in> set (ids [child]))"
    by (subst ids_concat) auto
  also have "\<dots> \<longleftrightarrow> (\<exists>child \<in> set cs. isDescendant child childId)"
    using "1.IH" by auto
  finally show ?case by auto
qed

lemma all_nodes_sub:
  "n \<in> set (all_nodes ns) \<Longrightarrow> distinct (ids ns) \<Longrightarrow>
   distinct (ids [n]) \<and> set (ids [n]) \<subseteq> set (ids ns)"
proof (induction ns rule: all_nodes.induct)
  case 1
  then show ?case by simp
next
  case (2 i t d cs e p ns)
  from "2.prems"(2) have dc: "distinct (ids cs)" and dn: "distinct (ids ns)" by auto
  from "2.prems"(1) consider
    (here) "n = TreeNode i t d cs e p" | (below) "n \<in> set (all_nodes cs)" | (right) "n \<in> set (all_nodes ns)"
    by auto
  then show ?case
  proof cases
    case here
    with "2.prems"(2) show ?thesis by auto
  next
    case below
    from "2.IH"(1) [OF this dc] show ?thesis by auto
  next
    case right
    from "2.IH"(2) [OF this dn] show ?thesis by auto
  qed
qed

lemma distinct_ids_unique:
  assumes "distinct (ids ns)" and "a \<in> set (all_nodes ns)" and "b \<in> set (all_nodes ns)"
    and "node_id a = node_id b"
  shows "a = b"
  using assms unfolding ids_def distinct_map by (auto dest: inj_onD)

lemma children_in_all_nodes:
  "n \<in> set (all_nodes ns) \<Longrightarrow> set (all_nodes (children n)) \<subseteq> set (all_nodes ns)"
  by (induction ns rule: all_nodes.induct) auto

lemma roots_in_all_nodes: "set ns \<subseteq> set (all_nodes ns)"
  by (induction ns rule: all_nodes.induct) auto

lemma ids_removeNode:
  assumes "distinct (ids ns)"
  shows "ids (removeNode ns s) = filter (\<lambda>i. i \<notin> set (subtree_ids s ns)) (ids ns)"
proof -
  have f: "map fst (map node_fields (all_nodes xs)) = ids xs" for xs
    by (simp add: ids_def node_fields_def comp_def)
  have "ids (removeNode ns s) = map fst (map node_fields (all_nodes (removeNode ns s)))"
    by (simp only: f)
  also have "\<dots> = map fst (filter (\<lambda>f. fst f \<notin> set (subtree_ids s ns))
      (map node_fields (all_nodes ns)))"
    by (simp only: removeNode_fields [OF assms])
  also have "\<dots> = filter (\<lambda>i. i \<notin> set (subtree_ids s ns)) (map fst (map node_fields (all_nodes ns)))"
    by (simp only: filter_map comp_def)
  finally show ?thesis by (simp only: f)
qed

lemma removeNode_in_eq:
  "removeNode_in s n =
     TreeNode (node_id n) (node_text n) (depth n) (removeNode (children n) s) (isExpanded n) (parent n)"
  by (cases n) (simp add: removeNode_def)

lemma removeNode_keeps:
  "n \<in> set (all_nodes ns) \<Longrightarrow> node_id n \<notin> set (subtree_ids s ns) \<Longrightarrow>
   removeNode_in s n \<in> set (all_nodes (removeNode ns s))"
proof (induction ns rule: all_nodes.induct)
  case 1
  then show ?case by simp
next
  case (2 i t d cs e p ns)
  from "2.prems"(1) consider
    (here) "n = TreeNode i t d cs e p" | (below) "n \<in> set (all_nodes cs)" | (right) "n \<in> set (all_nodes ns)"
    by auto
  then show ?case
  proof cases
    case here
    with "2.prems"(2) have "i \<noteq> s" by auto
    with here show ?thesis by (simp add: removeNode_def)
  next
    case below
    then have "node_id n \<in> set (ids cs)" by (auto simp: set_ids)
    with "2.prems"(2) have ne: "i \<noteq> s" by auto
    with "2.prems"(2) have "node_id n \<notin> set (subtree_ids s cs)" by simp
    from "2.IH"(1) [OF below this] ne show ?thesis by simp
  next
    case right
    from "2.prems"(2) have "node_id n \<notin> set (subtree_ids s ns)" by simp
    from "2.IH"(2) [OF right this] show ?thesis by simp
  qed
qed


lemma ids_append_Cons: "ids (xs @ x # ys) = ids xs @ ids [x] @ ids ys"
  by (cases x) simp

lemma roots_ids: "node_id ` set ns \<subseteq> set (ids ns)"
  using roots_in_all_nodes [of ns] by (auto simp: set_ids)

lemma mset_ids_splice:
  "mset (ids (splice_insert k x cs)) = mset (ids cs) + mset (ids [x])"
proof -
  have "mset (ids (splice_insert k x cs)) =
        mset (ids (take k cs)) + mset (ids (drop k cs)) + mset (ids [x])"
    unfolding splice_insert_def ids_append_Cons by simp
  also have "mset (ids (take k cs)) + mset (ids (drop k cs)) = mset (ids (take k cs @ drop k cs))"
    by (simp only: ids_append mset_append)
  also have "take k cs @ drop k cs = cs" by simp
  finally show ?thesis .
qed

lemma insertNode_simps:
  "insertNode [] t new pos = []"
  "insertNode (TreeNode i tx d cs e p # ns) t new pos =
     (if i = t \<and> pos = Child
      then TreeNode i tx d (cs @ [updateNodeDepth new (d + 1) (Some i)]) True p
      else if findIndex (\<lambda>c. node_id c = t) cs \<noteq> - 1 \<and> (pos = Before \<or> pos = After)
      then TreeNode i tx d
             (splice_insert
                (nat (if pos = Before then findIndex (\<lambda>c. node_id c = t) cs
                      else findIndex (\<lambda>c. node_id c = t) cs + 1))
                (updateNodeDepth new (depth (cs ! nat (findIndex (\<lambda>c. node_id c = t) cs))) (Some i))
                cs)
             e p
      else TreeNode i tx d (insertNode cs t new pos) e p)
     # insertNode ns t new pos"
  by (cases cs; simp add: insertNode_def Let_def)+

lemma insertNode_absent: "t \<notin> set (ids R) \<Longrightarrow> insertNode R t new pos = R"
proof (induction R rule: all_nodes.induct)
  case 1
  show ?case by (simp add: insertNode_simps)
next
  case (2 i tx d cs e p ns)
  from "2.prems" have it: "i \<noteq> t" and tc: "t \<notin> set (ids cs)" and tn: "t \<notin> set (ids ns)"
    by auto
  from tc roots_ids [of cs] have "findIndex (\<lambda>c. node_id c = t) cs = - 1"
    by (auto simp: findIndex_none)
  with it "2.IH"(1) [OF tc] "2.IH"(2) [OF tn] show ?case
    by (simp add: insertNode_simps)
qed

lemma mset_ids_insertNode:
  "distinct (ids R) \<Longrightarrow> t \<in> set (ids R) \<Longrightarrow> pos = Child \<or> t \<notin> node_id ` set R \<Longrightarrow>
   mset (ids (insertNode R t new pos)) = mset (ids R) + mset (ids [new])"
proof (induction R rule: all_nodes.induct)
  case 1
  then show ?case by simp
next
  case (2 i tx d cs e p ns)
  from "2.prems"(1) have dc: "distinct (ids cs)" and dn: "distinct (ids ns)"
    and ic: "i \<notin> set (ids cs)" and "in": "i \<notin> set (ids ns)"
    and disj: "set (ids cs) \<inter> set (ids ns) = {}"
    by auto
  let ?k = "findIndex (\<lambda>c. node_id c = t) cs"
  from "2.prems"(2) consider (here) "i = t" | (below) "t \<in> set (ids cs)" | (right) "t \<in> set (ids ns)"
    by auto
  then show ?case
  proof cases
    case here
    with "2.prems"(3) have pos: "pos = Child" by simp
    from here "in" have "insertNode ns t new pos = ns" by (simp add: insertNode_absent)
    with here pos show ?thesis
      by (simp add: insertNode_simps ids_updateNodeDepth)
  next
    case below
    with ic disj have it: "i \<noteq> t" and tn: "t \<notin> set (ids ns)" by auto
    from tn have rest: "insertNode ns t new pos = ns" by (simp add: insertNode_absent)
    show ?thesis
    proof (cases "?k \<noteq> - 1 \<and> (pos = Before \<or> pos = After)")
      case True
      with it rest show ?thesis
        by (simp add: insertNode_simps mset_ids_splice ids_updateNodeDepth)
    next
      case False
      then have "pos = Child \<or> t \<notin> node_id ` set cs"
        by (cases pos) (auto simp: findIndex_none)
      from "2.IH"(1) [OF dc below this] False it rest show ?thesis
        by (auto simp: insertNode_simps)
    qed
  next
    case right
    with "in" disj have it: "i \<noteq> t" and tc: "t \<notin> set (ids cs)" by auto
    from tc roots_ids [of cs] have k: "?k = - 1" by (auto simp: findIndex_none)
    from tc have c: "insertNode cs t new pos = cs" by (simp add: insertNode_absent)
    from "2.prems"(3) have "pos = Child \<or> t \<notin> node_id ` set ns" by auto
    from "2.IH"(2) [OF dn right this] it k c show ?thesis
      by (simp add: insertNode_simps)
  qed
qed

lemma insertNode_child_target:
  "distinct (ids R) \<Longrightarrow> tn \<in> set (all_nodes R) \<Longrightarrow> node_id tn = t \<Longrightarrow>
   TreeNode t (node_text tn) (depth tn)
     (children tn @ [updateNodeDepth new (depth tn + 1) (Some t)]) True (parent tn)
     \<in> set (all_nodes (insertNode R t new Child))"
proof (induction R rule: all_nodes.induct)
  case 1
  then show ?case by simp
next
  case (2 i tx d cs e p ns)
  from "2.prems"(1) have dc: "distinct (ids cs)" and dn: "distinct (ids ns)"
    and ic: "i \<notin> set (ids cs)"
    by auto
  from "2.prems"(2) consider
    (here) "tn = TreeNode i tx d cs e p" | (below) "tn \<in> set (all_nodes cs)" | (right) "tn \<in> set (all_nodes ns)"
    by auto
  then show ?case
  proof cases
    case here
    with "2.prems"(3) show ?thesis by (simp add: insertNode_simps)
  next
    case below
    with "2.prems"(3) have "t \<in> set (ids cs)" by (auto simp: set_ids)
    with ic have "i \<noteq> t" by auto
    with "2.IH"(1) [OF dc below "2.prems"(3)] show ?thesis
      by (simp add: insertNode_simps)
  next
    case right
    from "2.IH"(2) [OF dn right "2.prems"(3)] show ?thesis
      by (simp add: insertNode_simps)
  qed
qed


lemma distinct_no_self_ancestor: "distinct (ids ns) \<Longrightarrow> no_self_ancestor ns"
  by (induction ns rule: all_nodes.induct) auto

lemma handleDragOver_hovering:
  assumes "target_checked (nodes st0) s dt"
  shows "\<exists>dt'. handleDragOver t p (st0\<lparr>draggingId := Some s, dropTarget := dt\<rparr>) =
                 st0\<lparr>draggingId := Some s, dropTarget := dt'\<rparr> \<and>
               target_checked (nodes st0) s dt'"
proof -
  let ?st = "st0\<lparr>draggingId := Some s, dropTarget := dt\<rparr>"
  have none: "target_checked (nodes st0) s None" by (simp add: target_checked_def)
  show ?thesis
  proof (cases "falsy (Some s) \<or> s = t")
    case True
    then have "handleDragOver t p ?st = st0\<lparr>draggingId := Some s, dropTarget := None\<rparr>"
      by (auto simp: handleDragOver_def)
    with none show ?thesis by blast
  next
    case False
    then have s: "s \<noteq> []" "s \<noteq> t" by (auto simp: falsy_def)
    show ?thesis
    proof (cases "nodeMap (nodes st0) s")
      case None
      with False have "handleDragOver t p ?st = ?st"
        by (simp add: handleDragOver_def)
      with assms show ?thesis by blast
    next
      case (Some sn)
      note sn = this
      show ?thesis
      proof (cases "nodeMap (nodes st0) t")
        case None
        with False sn have "handleDragOver t p ?st = ?st"
          by (simp add: handleDragOver_def)
        with assms show ?thesis by blast
      next
        case (Some tn)
        show ?thesis
        proof (cases "isDescendant sn t")
          case True
          with False sn Some
          have "handleDragOver t p ?st = st0\<lparr>draggingId := Some s, dropTarget := None\<rparr>"
            by (simp add: handleDragOver_def)
          with none show ?thesis by blast
        next
          case False
          with \<open>\<not> (falsy (Some s) \<or> s = t)\<close> sn Some
          have "handleDragOver t p ?st = st0\<lparr>draggingId := Some s, dropTarget := Some (t, p)\<rparr>"
            by (simp add: handleDragOver_def)
          moreover have "target_checked (nodes st0) s (Some (t, p))"
            using s sn Some False by (simp add: target_checked_def droppable_def)
          ultimately show ?thesis by blast
        qed
      qed
    qed
  qed
qed

lemma hovers_hovering:
  assumes "target_checked (nodes st0) s dt"
  shows "\<exists>dt'. fold (\<lambda>h. handleDragOver (fst h) (snd h)) hovers
                 (st0\<lparr>draggingId := Some s, dropTarget := dt\<rparr>) =
                 st0\<lparr>draggingId := Some s, dropTarget := dt'\<rparr> \<and>
               target_checked (nodes st0) s dt'"
  using assms
proof (induction hovers arbitrary: dt)
  case Nil
  then show ?case by auto
next
  case (Cons h hovers)
  from handleDragOver_hovering [OF Cons.prems, of "fst h" "snd h"]
  obtain dt1 where 1: "handleDragOver (fst h) (snd h) (st0\<lparr>draggingId := Some s, dropTarget := dt\<rparr>) =
      st0\<lparr>draggingId := Some s, dropTarget := dt1\<rparr>"
    and 2: "target_checked (nodes st0) s dt1" by blast
  from Cons.IH [OF 2] 1 show ?case by simp
qed


text \<open>\<^verbatim>\<open>handleDrop\<close> with no pending target, and with a target it can find.\<close>

lemma handleDrop_none:
  "handleDrop (st0\<lparr>draggingId := Some s, dropTarget := None\<rparr>) = end_drag st0"
  by (simp add: handleDrop_def end_drag_def)

lemma handleDrop_target:
  assumes "s \<noteq> []" and "nodeMap (nodes st0) s = Some sn" and "nodeMap (nodes st0) t = Some tn"
  shows "nodes (handleDrop (st0\<lparr>draggingId := Some s, dropTarget := Some (t, p)\<rparr>)) =
           (if findIndex (\<lambda>n. node_id n = t) (nodes st0) \<noteq> - 1 \<and> (p = Before \<or> p = After)
            then (if findIndex (\<lambda>n. node_id n = t) (removeNode (nodes st0) s) \<noteq> - 1
                  then splice_insert
                         (nat (if p = Before
                               then findIndex (\<lambda>n. node_id n = t) (removeNode (nodes st0) s)
                               else findIndex (\<lambda>n. node_id n = t) (removeNode (nodes st0) s) + 1))
                         (updateNodeDepth sn 0 None) (removeNode (nodes st0) s)
                  else nodes st0)
            else insertNode (removeNode (nodes st0) s) t sn p)"
    and "expandedIds (handleDrop (st0\<lparr>draggingId := Some s, dropTarget := Some (t, p)\<rparr>)) =
           (if p = Child then insert t (expandedIds st0) else expandedIds st0)"
  using assms
  by (simp_all add: handleDrop_def falsy_def Let_def end_drag_def onUpdateNodes_def
      addToHistory_def)

lemma roots_removeNode: "node_id ` set (removeNode ns s) \<subseteq> node_id ` set ns"
proof -
  have "node_id (removeNode_in s x) = node_id x" for x by (cases x) simp
  then show ?thesis by (auto simp: removeNode_def)
qed

lemma drop_facts:
  assumes d: "distinct (ids ns)"
    and sn: "sn \<in> set (all_nodes ns)" "node_id sn = s"
    and tn: "tn \<in> set (all_nodes ns)" "node_id tn = t"
    and nd: "t \<notin> set (ids [sn])"
  shows "distinct (ids (removeNode ns s) @ ids [sn])"
    and "t \<in> set (ids (removeNode ns s))"
    and "removeNode_in s tn \<in> set (all_nodes (removeNode ns s))"
proof -
  have sub: "subtree_ids s ns = ids [sn]" by (rule subtree_ids_node [OF d sn])
  have r: "ids (removeNode ns s) = filter (\<lambda>i. i \<notin> set (ids [sn])) (ids ns)"
    using ids_removeNode [OF d, of s] by (simp only: sub)
  have "distinct (ids [sn])" using all_nodes_sub [OF sn(1) d] by simp
  then show "distinct (ids (removeNode ns s) @ ids [sn])"
    unfolding r using d by auto
  have "t \<in> set (ids ns)" using tn by (auto simp: set_ids)
  then show "t \<in> set (ids (removeNode ns s))" unfolding r using nd by simp
  from nd tn(2) have "node_id tn \<notin> set (subtree_ids s ns)" by (simp only: sub) simp
  then show "removeNode_in s tn \<in> set (all_nodes (removeNode ns s))"
    by (rule removeNode_keeps [OF tn(1)])
qed

lemma drop_distinct:
  assumes d: "distinct (ids ns)"
    and sn: "sn \<in> set (all_nodes ns)" "node_id sn = s"
    and tn: "tn \<in> set (all_nodes ns)" "node_id tn = t"
    and nd: "t \<notin> set (ids [sn])"
  shows "distinct (ids
           (if findIndex (\<lambda>n. node_id n = t) ns \<noteq> - 1 \<and> (p = Before \<or> p = After)
            then (if findIndex (\<lambda>n. node_id n = t) (removeNode ns s) \<noteq> - 1
                  then splice_insert
                         (nat (if p = Before
                               then findIndex (\<lambda>n. node_id n = t) (removeNode ns s)
                               else findIndex (\<lambda>n. node_id n = t) (removeNode ns s) + 1))
                         (updateNodeDepth sn 0 None) (removeNode ns s)
                  else ns)
            else insertNode (removeNode ns s) t sn p))"
proof -
  note f = drop_facts [OF d sn tn nd]
  let ?R = "removeNode ns s"
  have dR: "distinct (ids ?R)" using f(1) by simp
  have m: "distinct xs" if "mset xs = mset (ids ?R) + mset (ids [sn])" for xs
  proof -
    from that have "mset xs = mset (ids ?R @ ids [sn])" by simp
    from mset_eq_imp_distinct_iff [OF this] f(1) show ?thesis by simp
  qed
  show ?thesis
  proof (cases "findIndex (\<lambda>n. node_id n = t) ns \<noteq> - 1 \<and> (p = Before \<or> p = After)")
    case True
    have sp: "distinct (ids (splice_insert k (updateNodeDepth sn 0 None) ?R))" for k
      by (rule m) (simp add: mset_ids_splice ids_updateNodeDepth)
    show ?thesis
      unfolding if_P [OF True]
      using sp d by (cases "findIndex (\<lambda>n. node_id n = t) ?R = - 1") simp_all
  next
    case False
    then have "p = Child \<or> t \<notin> node_id ` set ns"
      by (cases p) (auto simp: findIndex_none)
    with roots_removeNode [of ns s] have "p = Child \<or> t \<notin> node_id ` set ?R" by auto
    from mset_ids_insertNode [OF dR f(2) this, of sn]
    have "distinct (ids (insertNode ?R t sn p))" by (rule m)
    then show ?thesis unfolding if_not_P [OF False] .
  qed
qed

lemma droppable_nodes:
  assumes "droppable ns s t"
  obtains sn tn where "s \<noteq> []" "nodeMap ns s = Some sn" "nodeMap ns t = Some tn"
    "sn \<in> set (all_nodes ns)" "node_id sn = s" "tn \<in> set (all_nodes ns)" "node_id tn = t"
    "t \<notin> set (ids [sn])"
proof -
  from assms obtain sn tn where a: "s \<noteq> []" "nodeMap ns s = Some sn" "nodeMap ns t = Some tn"
    "\<not> isDescendant sn t"
    by (auto simp: droppable_def split: option.splits)
  from nodeMap_Some [OF a(2)] nodeMap_Some [OF a(3)] a that show ?thesis
    by (simp add: isDescendant_ids)
qed

lemma move_distinct:
  assumes "distinct (ids (nodes st))" and "dropTarget st = None"
  shows "distinct (ids (nodes (move s hovers st)))"
proof -
  have st: "handleDragStart s st = st\<lparr>draggingId := Some s, dropTarget := None\<rparr>"
    using assms(2) by (cases st) (simp add: handleDragStart_def)
  have "target_checked (nodes st) s None" by (simp add: target_checked_def)
  from hovers_hovering [OF this, of hovers] obtain dt where
    h: "fold (\<lambda>h. handleDragOver (fst h) (snd h)) hovers (handleDragStart s st) =
        st\<lparr>draggingId := Some s, dropTarget := dt\<rparr>"
    and c: "target_checked (nodes st) s dt"
    unfolding st by blast
  show ?thesis
  proof (cases dt)
    case None
    with assms(1) show ?thesis
      by (simp add: move_def h handleDrop_none end_drag_def)
  next
    case (Some tp)
    obtain t p where tp: "tp = (t, p)" by (cases tp)
    from c Some tp have "droppable (nodes st) s t" by (simp add: target_checked_def)
    then obtain sn tn where a: "s \<noteq> []" "nodeMap (nodes st) s = Some sn"
      "nodeMap (nodes st) t = Some tn"
      "sn \<in> set (all_nodes (nodes st))" "node_id sn = s"
      "tn \<in> set (all_nodes (nodes st))" "node_id tn = t" "t \<notin> set (ids [sn])"
      by (rule droppable_nodes)
    show ?thesis
      unfolding move_def h Some tp handleDrop_target(1) [OF a(1,2,3)]
      by (rule drop_distinct [OF assms(1) a(4,5,6,7,8)])
  qed
qed


lemma descendant_ids_node:
  "distinct (ids ns) \<Longrightarrow> n \<in> set (all_nodes ns) \<Longrightarrow> node_id n = k \<Longrightarrow>
   descendant_ids k ns = ids (children n)"
proof (induction ns rule: all_nodes.induct)
  case 1
  then show ?case by simp
next
  case (2 i t d cs e p ns)
  from "2.prems"(1) have dc: "distinct (ids cs)" and dn: "distinct (ids ns)"
    and ic: "i \<notin> set (ids cs)" and "i \<notin> set (ids ns)"
    and disj: "set (ids cs) \<inter> set (ids ns) = {}"
    by auto
  from "2.prems"(2) consider
    (here) "n = TreeNode i t d cs e p" | (below) "n \<in> set (all_nodes cs)" | (right) "n \<in> set (all_nodes ns)"
    by auto
  then show ?case
  proof cases
    case here
    with "2.prems"(3) have "i = k" by simp
    moreover from this \<open>i \<notin> set (ids ns)\<close> have "descendant_ids k ns = []"
      by (simp add: descendant_ids_absent)
    ultimately show ?thesis using here by simp
  next
    case below
    with "2.prems"(3) have kc: "k \<in> set (ids cs)" by (auto simp: set_ids)
    with ic disj have "i \<noteq> k" "k \<notin> set (ids ns)" by auto
    then show ?thesis
      using "2.IH"(1) [OF dc below "2.prems"(3)] by (simp add: descendant_ids_absent)
  next
    case right
    with "2.prems"(3) have kn: "k \<in> set (ids ns)" by (auto simp: set_ids)
    with \<open>i \<notin> set (ids ns)\<close> disj have "i \<noteq> k" "k \<notin> set (ids cs)" by auto
    then show ?thesis
      using "2.IH"(2) [OF dn right "2.prems"(3)] by (simp add: descendant_ids_absent)
  qed
qed

lemma ids_node_subset: "n \<in> set (all_nodes ns) \<Longrightarrow> set (ids [n]) \<subseteq> set (ids ns)"
  using children_in_all_nodes [of n ns] by (auto simp: ids_single set_ids)

lemma handleDragOver_rejects:
  assumes "t = s \<or> (\<exists>sn. nodeMap (nodes st0) s = Some sn \<and> t \<in> set (ids [sn]))"
  shows "handleDragOver t p (st0\<lparr>draggingId := Some s, dropTarget := dt\<rparr>) =
           st0\<lparr>draggingId := Some s, dropTarget := None\<rparr>"
proof (cases "t = s")
  case True
  then show ?thesis by (simp add: handleDragOver_def)
next
  case False
  with assms obtain sn where sn: "nodeMap (nodes st0) s = Some sn" and t: "t \<in> set (ids [sn])"
    by blast
  from nodeMap_Some [OF sn] have "sn \<in> set (all_nodes (nodes st0))" by simp
  from ids_node_subset [OF this] t have "t \<in> set (ids (nodes st0))" by auto
  from nodeMap_present [OF this] obtain tn where tn: "nodeMap (nodes st0) t = Some tn" by blast
  from t have "isDescendant sn t" by (simp add: isDescendant_ids)
  with sn tn show ?thesis by (simp add: handleDragOver_def)
qed

lemma move_rejected:
  assumes "dropTarget st = None"
    and "t = s \<or> (\<exists>sn. nodeMap (nodes st) s = Some sn \<and> t \<in> set (ids [sn]))"
  shows "move s (hovers @ [(t, p)]) st = end_drag st"
proof -
  have st: "handleDragStart s st = st\<lparr>draggingId := Some s, dropTarget := None\<rparr>"
    using assms(1) by (cases st) (simp add: handleDragStart_def)
  have "target_checked (nodes st) s None" by (simp add: target_checked_def)
  from hovers_hovering [OF this, of hovers] obtain dt where
    h: "fold (\<lambda>h. handleDragOver (fst h) (snd h)) hovers (handleDragStart s st) =
        st\<lparr>draggingId := Some s, dropTarget := dt\<rparr>"
    unfolding st by blast
  show ?thesis
    by (simp add: move_def h handleDragOver_rejects [OF assms(2)] handleDrop_none)
qed

text \<open>
  Claim C1. A drag gesture starts with no drop target pending. On a tree with distinct
  ids, whatever rows the pointer passes over and wherever the drop lands, the tree
  after the drop has distinct ids again, so no node has its own id among its
  descendants: no node is an ancestor of itself. When the last row the pointer is over
  is the dragged node \<open>s\<close> itself or one of its descendants,
  \<^verbatim>\<open>handleDragOver\<close> clears the pending target and the drop leaves the tree, the
  history and the cursor as they were.
\<close>

theorem move_never_cycles:
  assumes "distinct (ids (nodes st))" and "dropTarget st = None"
  shows "distinct (ids (nodes (move s hovers st))) \<and>
         no_self_ancestor (nodes (move s hovers st)) \<and>
         (t = s \<or> t \<in> set (descendant_ids s (nodes st)) \<longrightarrow>
            nodes (move s (hovers @ [(t, p)]) st) = nodes st \<and>
            history (move s (hovers @ [(t, p)]) st) = history st \<and>
            historyIndex (move s (hovers @ [(t, p)]) st) = historyIndex st)"
proof (intro conjI impI)
  show d: "distinct (ids (nodes (move s hovers st)))"
    by (rule move_distinct [OF assms])
  then show "no_self_ancestor (nodes (move s hovers st))"
    by (rule distinct_no_self_ancestor)
next
  assume a: "t = s \<or> t \<in> set (descendant_ids s (nodes st))"
  have "t = s \<or> (\<exists>sn. nodeMap (nodes st) s = Some sn \<and> t \<in> set (ids [sn]))"
  proof (cases "t = s")
    case True
    then show ?thesis by simp
  next
    case False
    with a have t: "t \<in> set (descendant_ids s (nodes st))" by simp
    have "s \<in> set (ids (nodes st))"
    proof (rule ccontr)
      assume "s \<notin> set (ids (nodes st))"
      from descendant_ids_absent [OF this] t show False by simp
    qed
    from nodeMap_present [OF this] obtain sn where sn: "nodeMap (nodes st) s = Some sn" by blast
    from nodeMap_Some [OF sn] have "sn \<in> set (all_nodes (nodes st))" "node_id sn = s" by simp_all
    from descendant_ids_node [OF assms(1) this] t have "t \<in> set (ids [sn])"
      by (simp add: ids_single)
    with sn show ?thesis by blast
  qed
  from move_rejected [OF assms(2) this, of hovers p]
  show "nodes (move s (hovers @ [(t, p)]) st) = nodes st"
    and "history (move s (hovers @ [(t, p)]) st) = history st"
    and "historyIndex (move s (hovers @ [(t, p)]) st) = historyIndex st"
    by (simp_all add: end_drag_def)
qed

theorem move_never_cycles_witness:
  "distinct (ids (nodes (mount
     [TreeNode [65] [65] 0
        [TreeNode [66] [66] 1 [] True (Some [65]),
         TreeNode [67] [67] 1 [TreeNode [88] [88] 2 [] True (Some [67])] True (Some [65])]
        True None,
      TreeNode [68] [68] 0 [] True None]))) \<and>
   dropTarget (mount
     [TreeNode [65] [65] 0
        [TreeNode [66] [66] 1 [] True (Some [65]),
         TreeNode [67] [67] 1 [TreeNode [88] [88] 2 [] True (Some [67])] True (Some [65])]
        True None,
      TreeNode [68] [68] 0 [] True None]) = None \<and>
   no_self_ancestor (nodes (move [67] [([68], Child)] (mount
     [TreeNode [65] [65] 0
        [TreeNode [66] [66] 1 [] True (Some [65]),
         TreeNode [67] [67] 1 [TreeNode [88] [88] 2 [] True (Some [67])] True (Some [65])]
        True None,
      TreeNode [68] [68] 0 [] True None]))) \<and>
   nodes (move [67] ([([68], Child)] @ [([88], After)]) (mount
     [TreeNode [65] [65] 0
        [TreeNode [66] [66] 1 [] True (Some [65]),
         TreeNode [67] [67] 1 [TreeNode [88] [88] 2 [] True (Some [67])] True (Some [65])]
        True None,
      TreeNode [68] [68] 0 [] True None])) =
     [TreeNode [65] [65] 0
        [TreeNode [66] [66] 1 [] True (Some [65]),
         TreeNode [67] [67] 1 [TreeNode [88] [88] 2 [] True (Some [67])] True (Some [65])]
        True None,
      TreeNode [68] [68] 0 [] True None]"
proof -
  define ns where "ns = [TreeNode [65] [65] 0
        [TreeNode [66] [66] 1 [] True (Some [65]),
         TreeNode [67] [67] 1 [TreeNode [88] [88] 2 [] True (Some [67])] True (Some [65])]
        True None,
      TreeNode [68] [68] 0 [] True None]"
  have n: "nodes (mount ns) = ns" by (simp add: mount_def)
  have d: "distinct (ids (nodes (mount ns)))" unfolding n by (simp add: ns_def)
  have dt: "dropTarget (mount ns) = None" by (simp add: mount_def)
  have x: "[88::nat] = [67] \<or> [88] \<in> set (descendant_ids [67] (nodes (mount ns)))"
    unfolding n by (simp add: ns_def)
  note th = move_never_cycles [OF d dt, of "[67]" "[([68], Child)]" "[88]" After]
  from th have a: "no_self_ancestor (nodes (move [67] [([68], Child)] (mount ns)))" by simp
  from th x have b: "nodes (move [67] ([([68], Child)] @ [([88], After)]) (mount ns)) = ns"
    unfolding n by simp
  from d dt a b show ?thesis unfolding ns_def by (intro conjI)
qed

lemma outline_simp [simp]: "outline (TreeNode i t d cs e p) = (i, t, e, length cs)"
  by (simp add: outline_def)

lemma all_nodes_concat: "all_nodes ns = concat (map (\<lambda>n. all_nodes [n]) ns)"
  by (induction ns rule: all_nodes.induct) simp_all

lemma outline_updateNodeDepth:
  "map outline (all_nodes [updateNodeDepth n d p]) = map outline (all_nodes [n])"
proof (induction n d p rule: updateNodeDepth.induct)
  case (1 i t d cs e p newDepth newParent)
  show ?case
  proof (cases "length cs > 0")
    case True
    let ?f = "\<lambda>child. updateNodeDepth child (newDepth + 1) (Some i)"
    have "map outline (all_nodes (map ?f cs)) =
          concat (map (\<lambda>c. map outline (all_nodes [?f c])) cs)"
      by (subst all_nodes_concat) (simp add: map_concat comp_def)
    also have "\<dots> = concat (map (\<lambda>c. map outline (all_nodes [c])) cs)"
      using "1.IH" [OF True] by (simp cong: map_cong)
    also have "\<dots> = map outline (all_nodes cs)"
      by (subst (2) all_nodes_concat) (simp add: map_concat comp_def)
    finally show ?thesis using True by simp
  next
    case False
    then show ?thesis by simp
  qed
qed

lemma nodeMap_distinct:
  assumes "distinct (ids ns)" and "n \<in> set (all_nodes ns)"
  shows "nodeMap ns (node_id n) = Some n"
proof -
  from assms(2) have "node_id n \<in> set (ids ns)" by (auto simp: set_ids)
  from nodeMap_present [OF this] obtain m where m: "nodeMap ns (node_id n) = Some m" by blast
  from nodeMap_Some [OF m] have "m \<in> set (all_nodes ns)" "node_id m = node_id n" by simp_all
  from distinct_ids_unique [OF assms(1) this(1) assms(2) this(2)] m show ?thesis by simp
qed

lemma handleDragOver_accepts:
  assumes "s \<noteq> []" and "nodeMap (nodes st0) s = Some sn" and "nodeMap (nodes st0) t = Some tn"
    and "t \<notin> set (ids [sn])"
  shows "handleDragOver t p (st0\<lparr>draggingId := Some s, dropTarget := dt\<rparr>) =
           st0\<lparr>draggingId := Some s, dropTarget := Some (t, p)\<rparr>"
proof -
  from nodeMap_Some [OF assms(2)] assms(4) have "s \<noteq> t" by (auto simp: ids_single)
  moreover from assms(4) have "\<not> isDescendant sn t" by (simp add: isDescendant_ids)
  ultimately show ?thesis
    using assms(1,2,3) by (simp add: handleDragOver_def falsy_def)
qed

lemma move_child_result:
  assumes d: "distinct (ids (nodes st))" and dt: "dropTarget st = None"
    and s: "s \<noteq> []"
    and sn: "sn \<in> set (all_nodes (nodes st))" "node_id sn = s"
    and tn: "tn \<in> set (all_nodes (nodes st))" "node_id tn = t"
    and nd: "t \<notin> set (ids [sn])"
  shows "nodes (move s (hovers @ [(t, Child)]) st) = insertNode (removeNode (nodes st) s) t sn Child"
    and "expandedIds (move s (hovers @ [(t, Child)]) st) = insert t (expandedIds st)"
proof -
  have st: "handleDragStart s st = st\<lparr>draggingId := Some s, dropTarget := None\<rparr>"
    using dt by (cases st) (simp add: handleDragStart_def)
  have "target_checked (nodes st) s None" by (simp add: target_checked_def)
  from hovers_hovering [OF this, of hovers] obtain dt' where
    h: "fold (\<lambda>h. handleDragOver (fst h) (snd h)) hovers (handleDragStart s st) =
        st\<lparr>draggingId := Some s, dropTarget := dt'\<rparr>"
    unfolding st by blast
  have ms: "nodeMap (nodes st) s = Some sn" using nodeMap_distinct [OF d sn(1)] sn(2) by simp
  have mt: "nodeMap (nodes st) t = Some tn" using nodeMap_distinct [OF d tn(1)] tn(2) by simp
  have m: "move s (hovers @ [(t, Child)]) st =
      handleDrop (st\<lparr>draggingId := Some s, dropTarget := Some (t, Child)\<rparr>)"
    by (simp add: move_def h handleDragOver_accepts [OF s ms mt nd])
  show "nodes (move s (hovers @ [(t, Child)]) st) = insertNode (removeNode (nodes st) s) t sn Child"
    unfolding m handleDrop_target(1) [OF s ms mt] by simp
  show "expandedIds (move s (hovers @ [(t, Child)]) st) = insert t (expandedIds st)"
    unfolding m handleDrop_target(2) [OF s ms mt] by simp
qed

text \<open>
  Claim C4. Take a tree with distinct ids, a node \<open>sn\<close> with a non-empty id \<open>s\<close>
  and a node \<open>tn\<close> with id \<open>t\<close> outside the subtree of \<open>sn\<close>, and a drag of
  \<open>s\<close> that ends over \<open>t\<close> in the middle of the row (position child). After the
  drop the tree has exactly one node with id \<open>t\<close>: it is expanded, it has the depth
  it had, and its children are the ones it had (without \<open>s\<close>) followed by the moved
  subtree; \<open>t\<close> is also in the set of expanded ids. The moved subtree is the only
  node with id \<open>s\<close>; it has the ids, texts, flags and shape of \<open>sn\<close>, its root
  has depth \<open>depth tn + 1\<close>, and every node in it has the depth of its parent plus
  one, so a node at relative depth \<open>j\<close> has depth \<open>depth tn + 1 + j\<close>.
\<close>

theorem move_child_depths:
  assumes "distinct (ids (nodes st))" and "dropTarget st = None"
    and "s \<noteq> []"
    and "sn \<in> set (all_nodes (nodes st))" and "node_id sn = s"
    and "tn \<in> set (all_nodes (nodes st))" and "node_id tn = t"
    and "t \<notin> set (ids [sn])"
  shows "(\<forall>n \<in> set (all_nodes (nodes (move s (hovers @ [(t, Child)]) st))).
            node_id n = t \<longrightarrow>
              isExpanded n \<and> depth n = depth tn \<and>
              children n = removeNode (children tn) s @
                             [updateNodeDepth sn (depth tn + 1) (Some t)]) \<and>
         t \<in> set (ids (nodes (move s (hovers @ [(t, Child)]) st))) \<and>
         t \<in> expandedIds (move s (hovers @ [(t, Child)]) st) \<and>
         (\<forall>n \<in> set (all_nodes (nodes (move s (hovers @ [(t, Child)]) st))).
            node_id n = s \<longrightarrow> n = updateNodeDepth sn (depth tn + 1) (Some t)) \<and>
         s \<in> set (ids (nodes (move s (hovers @ [(t, Child)]) st))) \<and>
         depths_from (depth tn + 1) (updateNodeDepth sn (depth tn + 1) (Some t)) \<and>
         map outline (all_nodes [updateNodeDepth sn (depth tn + 1) (Some t)]) =
           map outline (all_nodes [sn])"
proof -
  let ?res = "nodes (move s (hovers @ [(t, Child)]) st)"
  let ?R = "removeNode (nodes st) s"
  let ?moved = "updateNodeDepth sn (depth tn + 1) (Some t)"
  let ?T = "TreeNode t (node_text tn) (depth tn) (removeNode (children tn) s @ [?moved]) True (parent tn)"
  note res = move_child_result [OF assms, of hovers]
  note f = drop_facts [OF assms(1) assms(4,5,6,7,8)]
  have dres: "distinct (ids ?res)" by (rule move_distinct [OF assms(1,2)])
  have dR: "distinct (ids ?R)" using f(1) by simp
  have "node_id (removeNode_in s tn) = t" using assms(7) by (simp add: removeNode_in_eq)
  from insertNode_child_target [OF dR f(3) this, of sn]
  have T: "?T \<in> set (all_nodes ?res)"
    unfolding res(1) by (simp add: removeNode_in_eq)
  have "?moved \<in> set (children ?T)" by simp
  with roots_in_all_nodes [of "children ?T"] children_in_all_nodes [OF T]
  have M: "?moved \<in> set (all_nodes ?res)" by blast
  have 1: "isExpanded n \<and> depth n = depth tn \<and> children n = removeNode (children tn) s @ [?moved]"
    if "n \<in> set (all_nodes ?res)" "node_id n = t" for n
  proof -
    from distinct_ids_unique [OF dres that(1) T] that(2) have "n = ?T" by simp
    then show ?thesis by simp
  qed
  have 2: "n = ?moved" if "n \<in> set (all_nodes ?res)" "node_id n = s" for n
    using distinct_ids_unique [OF dres that(1) M] that(2) assms(5) by simp
  have 3: "t \<in> set (ids ?res)" using imageI [OF T, of node_id] by (simp add: set_ids)
  have 4: "s \<in> set (ids ?res)" using imageI [OF M, of node_id] by (simp add: set_ids assms(5))
  have 5: "t \<in> expandedIds (move s (hovers @ [(t, Child)]) st)" unfolding res(2) by simp
  from 1 2 3 4 5 depths_updateNodeDepth [of "depth tn + 1" sn "Some t"]
    outline_updateNodeDepth [of sn "depth tn + 1" "Some t"]
  show ?thesis by (intro conjI ballI impI) blast+
qed


theorem move_child_depths_witness:
  "distinct (ids (nodes (mount
     [TreeNode [65] [65] 0
        [TreeNode [66] [66] 1 [] True (Some [65]),
         TreeNode [67] [67] 1 [TreeNode [88] [88] 2 [] True (Some [67])] True (Some [65])]
        True None,
      TreeNode [68] [68] 3 [] False None]))) \<and>
   [68] \<in> expandedIds (move [67] ([] @ [([68], Child)]) (mount
     [TreeNode [65] [65] 0
        [TreeNode [66] [66] 1 [] True (Some [65]),
         TreeNode [67] [67] 1 [TreeNode [88] [88] 2 [] True (Some [67])] True (Some [65])]
        True None,
      TreeNode [68] [68] 3 [] False None])) \<and>
   [67] \<in> set (ids (nodes (move [67] ([] @ [([68], Child)]) (mount
     [TreeNode [65] [65] 0
        [TreeNode [66] [66] 1 [] True (Some [65]),
         TreeNode [67] [67] 1 [TreeNode [88] [88] 2 [] True (Some [67])] True (Some [65])]
        True None,
      TreeNode [68] [68] 3 [] False None])))) \<and>
   updateNodeDepth
     (TreeNode [67] [67] 1 [TreeNode [88] [88] 2 [] True (Some [67])] True (Some [65]))
     (depth (TreeNode [68] [68] 3 [] False None) + 1) (Some [68]) =
     TreeNode [67] [67] 4 [TreeNode [88] [88] 5 [] True (Some [67])] True (Some [68]) \<and>
   depths_from 4
     (TreeNode [67] [67] 4 [TreeNode [88] [88] 5 [] True (Some [67])] True (Some [68]))"
proof -
  define sn where "sn = TreeNode [67] [67] 1 [TreeNode [88] [88] 2 [] True (Some [67])] True (Some [65])"
  define tn where "tn = TreeNode [68] [68] 3 [] False None"
  define ns where "ns = [TreeNode [65] [65] 0 [TreeNode [66] [66] 1 [] True (Some [65]), sn] True None, tn]"
  have n: "nodes (mount ns) = ns" by (simp add: mount_def)
  have d: "distinct (ids (nodes (mount ns)))" unfolding n by (simp add: ns_def sn_def tn_def)
  have dt: "dropTarget (mount ns) = None" by (simp add: mount_def)
  have s: "[67::nat] \<noteq> []" by simp
  have a: "sn \<in> set (all_nodes (nodes (mount ns)))" "node_id sn = [67]"
    unfolding n by (simp_all add: ns_def sn_def tn_def)
  have b: "tn \<in> set (all_nodes (nodes (mount ns)))" "node_id tn = [68]"
    unfolding n by (simp_all add: ns_def sn_def tn_def)
  have c: "[68] \<notin> set (ids [sn])" by (simp add: sn_def)
  have u: "updateNodeDepth sn (depth tn + 1) (Some [68]) =
      TreeNode [67] [67] 4 [TreeNode [88] [88] 5 [] True (Some [67])] True (Some [68])"
    by (simp add: sn_def tn_def)
  note th = move_child_depths [OF d dt s a b c, of "[]"]
  from th have 1: "[68] \<in> expandedIds (move [67] ([] @ [([68], Child)]) (mount ns))"
    by (elim conjE)
  from th have 2: "[67] \<in> set (ids (nodes (move [67] ([] @ [([68], Child)]) (mount ns))))"
    by (elim conjE)
  from th have "depths_from (depth tn + 1) (updateNodeDepth sn (depth tn + 1) (Some [68]))"
    by (elim conjE)
  then have 3: "depths_from 4
      (TreeNode [67] [67] 4 [TreeNode [88] [88] 5 [] True (Some [67])] True (Some [68]))"
    unfolding u by (simp add: tn_def)
  from d 1 2 u 3 show ?thesis unfolding ns_def sn_def tn_def by (intro conjI)
qed

end
